theory Spec2Isabelle
  imports Complex_Main "HOL-Library.Word" "HOL-Library.Multiset" "HOL-Library.Sublist"
    "HOL-Library.Log_Nat"
begin

section \<open>Decision-tree induction over 28x28 images (dectree.c)\<close>

text \<open>
  The development follows \<^verbatim>\<open>dectree.c\<close> and its header. Arrays are lists, an index
  subset \<^verbatim>\<open>(M, indices)\<close> is the list of its \<^verbatim>\<open>M\<close> entries, an out-parameter is a
  component of the result. Whatever is undefined behaviour in C (a read outside an
  array, a read of a variable that was never assigned, a null child followed) is a
  value of \<open>fault\<close>, returned on the left of a sum and propagated by every caller.
  Indices and pixel positions are natural numbers, counters and the fields of a node
  are integers; no counter exceeds \<^verbatim>\<open>M\<close>, itself an \<^verbatim>\<open>int\<close>, so none overflows.
  Allocation is assumed to succeed, and \<^verbatim>\<open>free\<close> has no counterpart.
\<close>

subsection \<open>Faults\<close>

datatype fault = OutOfBounds | UninitialisedRead | NullDeref | BadArraySize

definition bindE :: "fault + 'a \<Rightarrow> ('a \<Rightarrow> fault + 'b) \<Rightarrow> fault + 'b" where
  "bindE m f = (case m of Inl e \<Rightarrow> Inl e | Inr x \<Rightarrow> f x)"

subsection \<open>The C type double\<close>

text \<open>
  A \<^verbatim>\<open>double\<close> is an IEEE 754 binary64 value: a finite value, one of the two
  infinities or not-a-number. A finite value is the rational it denotes. The result of
  an addition, a multiplication or a division of finite values is the exact result
  rounded to the nearest binary64 value, ties to the even significand, after every
  single operation, as an x86-64 compiler evaluates \<^verbatim>\<open>double\<close> expressions.
\<close>

datatype double = Fin rat | PInf | NInf | NaN

text \<open>\<open>ilog2 x\<close> is the binary exponent of a positive rational: the \<open>e\<close> with
  \<open>2^e \<le> x < 2^(e+1)\<close>, found from the bit lengths of numerator and denominator.\<close>

definition ilog2 :: "rat \<Rightarrow> int" where
  "ilog2 x =
     (let (a, b) = quotient_of x; e = bitlen a - bitlen b
      in if 2 powi e \<le> x then e else e - 1)"

text \<open>Rounding to the nearest integer, a tie to the even one.\<close>

definition round_even :: "rat \<Rightarrow> int" where
  "round_even r =
     (let f = \<lfloor>r\<rfloor>; d = r - of_int f
      in if d < 1 / 2 then f else if 1 / 2 < d then f + 1 else if even f then f else f + 1)"

text \<open>The spacing of the binary64 values around \<open>x\<close> is \<open>2^(quantum x)\<close>: 53 significant
  bits for a normal value, and the fixed spacing \<open>2^-1074\<close> of the subnormal values below
  \<open>2^-1022\<close>.\<close>

definition quantum :: "rat \<Rightarrow> int" where
  "quantum x = max (ilog2 \<bar>x\<bar>) (- 1022) - 52"

text \<open>\<open>round_value x\<close> is the binary64 value nearest to \<open>x\<close>. The exponent is not
  bounded above: no overflow to infinity is modelled. The program computes shares and
  impurities between 0 and 1 and their products with counts, which are of type
  \<^verbatim>\<open>int\<close>, so all its finite values stay below \<open>2^32\<close>, far from the largest binary64
  value. The sign of a zero is not modelled: the only zero divisor the program meets is
  a count converted from \<^verbatim>\<open>int\<close>, which is \<open>+0\<close>.\<close>

definition round_value :: "rat \<Rightarrow> rat" where
  "round_value x =
     (if x = 0 then 0
      else sgn x * of_int (round_even (\<bar>x\<bar> / 2 powi quantum x)) * 2 powi quantum x)"

text \<open>The conversion \<^verbatim>\<open>(double) n\<close> of an \<^verbatim>\<open>int\<close> is exact: an \<^verbatim>\<open>int\<close> has 32 bits.\<close>

definition d_of_int :: "int \<Rightarrow> double" where
  "d_of_int n = Fin (of_int n)"

fun fneg :: "double \<Rightarrow> double" where
  "fneg (Fin a) = Fin (- a)"
| "fneg PInf = NInf"
| "fneg NInf = PInf"
| "fneg NaN = NaN"

fun fadd :: "double \<Rightarrow> double \<Rightarrow> double" where
  "fadd (Fin a) (Fin b) = Fin (round_value (a + b))"
| "fadd NaN y = NaN"
| "fadd x NaN = NaN"
| "fadd PInf NInf = NaN"
| "fadd NInf PInf = NaN"
| "fadd PInf y = PInf"
| "fadd x PInf = PInf"
| "fadd NInf y = NInf"
| "fadd x NInf = NInf"

definition fsub :: "double \<Rightarrow> double \<Rightarrow> double" where
  "fsub x y = fadd x (fneg y)"

fun is_zero :: "double \<Rightarrow> bool" where
  "is_zero (Fin a) = (a = 0)"
| "is_zero x = False"

fun is_neg :: "double \<Rightarrow> bool" where
  "is_neg (Fin a) = (a < 0)"
| "is_neg NInf = True"
| "is_neg x = False"

fun fmul :: "double \<Rightarrow> double \<Rightarrow> double" where
  "fmul (Fin a) (Fin b) = Fin (round_value (a * b))"
| "fmul NaN y = NaN"
| "fmul x NaN = NaN"
| "fmul x y = (if is_zero x \<or> is_zero y then NaN
               else if is_neg x = is_neg y then PInf else NInf)"

fun fdiv :: "double \<Rightarrow> double \<Rightarrow> double" where
  "fdiv (Fin a) (Fin b) =
     (if b = 0 then (if a = 0 then NaN else if 0 < a then PInf else NInf)
      else Fin (round_value (a / b)))"
| "fdiv NaN y = NaN"
| "fdiv x NaN = NaN"
| "fdiv (Fin a) y = Fin 0"
| "fdiv x (Fin b) = (if is_neg x = (b < 0) then PInf else NInf)"
| "fdiv x y = NaN"

fun flt :: "double \<Rightarrow> double \<Rightarrow> bool" where
  "flt (Fin a) (Fin b) = (a < b)"
| "flt NaN y = False"
| "flt x NaN = False"
| "flt x NInf = False"
| "flt NInf y = True"
| "flt PInf y = False"
| "flt x PInf = True"

fun feq :: "double \<Rightarrow> double \<Rightarrow> bool" where
  "feq NaN y = False"
| "feq x NaN = False"
| "feq x y = (x = y)"

definition fne :: "double \<Rightarrow> double \<Rightarrow> bool" where
  "fne x y = (\<not> feq x y)"

definition fge :: "double \<Rightarrow> double \<Rightarrow> bool" where
  "fge x y = (flt y x \<or> feq x y)"

text \<open>The macros \<^verbatim>\<open>INFINITY\<close> and \<^verbatim>\<open>NAN\<close> of math.h, and the header's
  \<^verbatim>\<open>THRESHOLD_RATIO\<close>, \<^verbatim>\<open>WIDTH\<close> and \<^verbatim>\<open>NUM_PIXELS\<close>. The literal \<^verbatim>\<open>0.95\<close> is the
  binary64 value nearest to 95/100, which is \<open>8556839292003942 / 2^53\<close>.\<close>

definition INFINITY :: double where
  "INFINITY = PInf"

definition NAN :: double where
  "NAN = NaN"

definition THRESHOLD_RATIO :: double where
  "THRESHOLD_RATIO = Fin (round_value (95 / 100))"

definition WIDTH :: nat where
  "WIDTH = 28"

definition NUM_PIXELS :: nat where
  "NUM_PIXELS = WIDTH * WIDTH"

subsection \<open>Images, datasets and tree nodes\<close>

record Image =
  sx :: int
  sy :: int
  data :: "8 word list"

record Dataset =
  num_items :: int
  images :: "Image list"
  labels :: "8 word list"

text \<open>A node is the C struct: both fields are always present, a child pointer is
  \<open>None\<close> when it is \<^verbatim>\<open>NULL\<close>. Every node is freshly allocated and owned by its
  parent, so the pointer structure is a tree.\<close>

datatype DTNode =
  DTNode (pixel: int) (classification: int) (left: "DTNode option") (right: "DTNode option")

text \<open>\<^verbatim>\<open>data->images[img_idx].data[pixel]\<close> and \<^verbatim>\<open>data->labels[img_idx]\<close>.\<close>

definition pixel_at :: "Dataset \<Rightarrow> nat \<Rightarrow> nat \<Rightarrow> fault + 8 word" where
  "pixel_at d img_idx p =
     (if img_idx < length (images d) \<and> p < length (data (images d ! img_idx))
      then Inr (data (images d ! img_idx) ! p) else Inl OutOfBounds)"

definition label_at :: "Dataset \<Rightarrow> nat \<Rightarrow> fault + nat" where
  "label_at d img_idx =
     (if img_idx < length (labels d) then Inr (unat (labels d ! img_idx))
      else Inl OutOfBounds)"

text \<open>\<^verbatim>\<open>freq[k]++\<close> on an array of ints.\<close>

definition incr :: "int list \<Rightarrow> nat \<Rightarrow> fault + int list" where
  "incr freq k = (if k < length freq then Inr (freq[k := freq ! k + 1]) else Inl OutOfBounds)"

subsection \<open>gini_impurity\<close>

text \<open>The first loop: one step per index, on the state
  \<open>(a_freq, a_count, b_freq, b_count)\<close>.\<close>

fun gini_count ::
  "Dataset \<Rightarrow> nat \<Rightarrow> nat list \<Rightarrow> int list \<times> int \<times> int list \<times> int
     \<Rightarrow> fault + (int list \<times> int \<times> int list \<times> int)" where
  "gini_count d p [] st = Inr st"
| "gini_count d p (img_idx # rest) (a_freq, a_count, b_freq, b_count) =
     bindE (pixel_at d img_idx p) (\<lambda>v.
       bindE (label_at d img_idx) (\<lambda>l.
         if v < 128
         then bindE (incr a_freq l) (\<lambda>a_freq'.
                gini_count d p rest (a_freq', a_count + 1, b_freq, b_count))
         else bindE (incr b_freq l) (\<lambda>b_freq'.
                gini_count d p rest (a_freq, a_count, b_freq', b_count + 1))))"

text \<open>The second loop, over the ten labels, on the state \<open>(a_gini, b_gini)\<close>.\<close>

definition gini_step ::
  "int list \<Rightarrow> int \<Rightarrow> int list \<Rightarrow> int \<Rightarrow> nat \<Rightarrow> double \<times> double \<Rightarrow> double \<times> double" where
  "gini_step a_freq a_count b_freq b_count i g =
     (let a_i = fdiv (d_of_int (a_freq ! i)) (d_of_int a_count);
          b_i = fdiv (d_of_int (b_freq ! i)) (d_of_int b_count)
      in (fadd (fst g) (fmul a_i (fsub (Fin 1) a_i)),
          fadd (snd g) (fmul b_i (fsub (Fin 1) b_i))))"

definition gini_impurity :: "Dataset \<Rightarrow> nat list \<Rightarrow> nat \<Rightarrow> fault + double" where
  "gini_impurity d indices p =
     bindE (gini_count d p indices (replicate 10 0, 0, replicate 10 0, 0))
       (\<lambda>(a_freq, a_count, b_freq, b_count).
          let g = fold (gini_step a_freq a_count b_freq b_count) [0..<10] (Fin 0, Fin 0)
          in Inr (fdiv (fadd (fmul (fst g) (d_of_int a_count))
                             (fmul (snd g) (d_of_int b_count)))
                       (d_of_int (int (length indices)))))"

subsection \<open>get_most_frequent\<close>

text \<open>The first loop fills \<^verbatim>\<open>frequencies\<close>; the second scans the labels \<open>0..9\<close> on
  the state \<open>(*label, *freq)\<close>, which starts at \<open>(-1, -1)\<close>. The result is the pair of
  the two out-parameters.\<close>

fun count_labels :: "Dataset \<Rightarrow> nat list \<Rightarrow> int list \<Rightarrow> fault + int list" where
  "count_labels d [] frequencies = Inr frequencies"
| "count_labels d (img_index # rest) frequencies =
     bindE (label_at d img_index) (\<lambda>img_label.
       bindE (incr frequencies img_label) (\<lambda>frequencies'.
         count_labels d rest frequencies'))"

fun scan_labels :: "int list \<Rightarrow> nat list \<Rightarrow> int \<times> int \<Rightarrow> int \<times> int" where
  "scan_labels frequencies [] st = st"
| "scan_labels frequencies (k # ks) (label, freq) =
     (if frequencies ! k > freq then scan_labels frequencies ks (int k, frequencies ! k)
      else if frequencies ! k = freq then
        (if int k < label then scan_labels frequencies ks (int k, frequencies ! k)
         else scan_labels frequencies ks (label, freq))
      else scan_labels frequencies ks (label, freq))"

definition get_most_frequent :: "Dataset \<Rightarrow> nat list \<Rightarrow> fault + (int \<times> int)" where
  "get_most_frequent d indices =
     bindE (count_labels d indices (replicate 10 0))
       (\<lambda>frequencies. Inr (scan_labels frequencies [0..<10] (-1, -1)))"

subsection \<open>find_best_split\<close>

text \<open>The loop state is \<open>(min_impurity, best_split)\<close>. \<^verbatim>\<open>best_split\<close> is declared
  without an initialiser: it is \<open>None\<close> until the loop assigns it, and reading it
  while it is \<open>None\<close> is the fault \<open>UninitialisedRead\<close>.\<close>

fun best_split_loop ::
  "Dataset \<Rightarrow> nat list \<Rightarrow> nat list \<Rightarrow> double \<times> nat option \<Rightarrow> fault + (double \<times> nat option)" where
  "best_split_loop d indices [] st = Inr st"
| "best_split_loop d indices (i # rest) (min_impurity, best_split) =
     bindE (gini_impurity d indices i) (\<lambda>pixel_impurity.
       if flt pixel_impurity min_impurity \<and> fne pixel_impurity NAN
       then best_split_loop d indices rest (pixel_impurity, Some i)
       else if feq pixel_impurity min_impurity \<and> fne pixel_impurity NAN
       then (case best_split of
               None \<Rightarrow> Inl UninitialisedRead
             | Some b \<Rightarrow>
                 if i < b then best_split_loop d indices rest (pixel_impurity, Some i)
                 else best_split_loop d indices rest (min_impurity, best_split))
       else best_split_loop d indices rest (min_impurity, best_split))"

definition find_best_split :: "Dataset \<Rightarrow> nat list \<Rightarrow> fault + nat" where
  "find_best_split d indices =
     bindE (best_split_loop d indices [0..<784] (INFINITY, None))
       (\<lambda>(min_impurity, best_split).
          case best_split of None \<Rightarrow> Inl UninitialisedRead | Some b \<Rightarrow> Inr b)"

subsection \<open>split_data\<close>

text \<open>The first loop adds to \<^verbatim>\<open>*left_size\<close> and \<^verbatim>\<open>*right_size\<close>, whose values on entry
  are arguments here (the caller sets both to 0). The second loop writes the two
  arrays from position 0, in the order of \<^verbatim>\<open>indices\<close>. The result is
  \<open>(subsets[0], subsets[1], *left_size, *right_size)\<close>, each array given by the
  entries written to it.\<close>

fun split_sizes :: "Dataset \<Rightarrow> nat \<Rightarrow> nat list \<Rightarrow> nat \<times> nat \<Rightarrow> fault + (nat \<times> nat)" where
  "split_sizes d p [] st = Inr st"
| "split_sizes d p (index # rest) (left_size, right_size) =
     bindE (pixel_at d index p) (\<lambda>v.
       if v < 128 then split_sizes d p rest (left_size + 1, right_size)
       else split_sizes d p rest (left_size, right_size + 1))"

fun split_fill ::
  "Dataset \<Rightarrow> nat \<Rightarrow> nat list \<Rightarrow> nat list \<times> nat list \<Rightarrow> fault + (nat list \<times> nat list)" where
  "split_fill d p [] st = Inr st"
| "split_fill d p (index # rest) (subsets0, subsets1) =
     bindE (pixel_at d index p) (\<lambda>v.
       if v < 128 then split_fill d p rest (subsets0 @ [index], subsets1)
       else split_fill d p rest (subsets0, subsets1 @ [index]))"

definition split_data ::
  "Dataset \<Rightarrow> nat list \<Rightarrow> nat \<Rightarrow> nat \<Rightarrow> nat
     \<Rightarrow> fault + (nat list \<times> nat list \<times> nat \<times> nat)" where
  "split_data d indices p left_size right_size =
     bindE (split_sizes d p indices (left_size, right_size)) (\<lambda>(left_size', right_size').
       bindE (split_fill d p indices ([], [])) (\<lambda>(subsets0, subsets1).
         Inr (subsets0, subsets1, left_size', right_size')))"

subsection \<open>dec_tree_classify\<close>

fun dec_tree_classify :: "DTNode \<Rightarrow> Image \<Rightarrow> fault + int" where
  "dec_tree_classify (DTNode px cls l r) img =
     (if cls \<noteq> - 1 then Inr cls
      else if px < 0 \<or> length (data img) \<le> nat px then Inl OutOfBounds
      else if data img ! nat px = 0
      then (case l of None \<Rightarrow> Inl NullDeref | Some n \<Rightarrow> dec_tree_classify n img)
      else (case r of None \<Rightarrow> Inl NullDeref | Some n \<Rightarrow> dec_tree_classify n img))"

section \<open>Notions used in the statements\<close>

subsection \<open>Reads inside the arrays\<close>

text \<open>The program checks no index. \<open>pixel_ok\<close> and \<open>label_ok\<close> say that the
  reads and the counter update made for one index stay inside their arrays.\<close>

definition pixel_ok :: "Dataset \<Rightarrow> nat \<Rightarrow> nat \<Rightarrow> bool" where
  "pixel_ok d p i \<longleftrightarrow> i < length (images d) \<and> p < length (data (images d ! i))"

definition label_ok :: "Dataset \<Rightarrow> nat \<Rightarrow> bool" where
  "label_ok d i \<longleftrightarrow> i < length (labels d) \<and> unat (labels d ! i) < 10"

definition in_bounds :: "Dataset \<Rightarrow> nat \<Rightarrow> nat \<Rightarrow> bool" where
  "in_bounds d p i \<longleftrightarrow>
     i < length (images d) \<and> p < length (data (images d ! i)) \<and>
     i < length (labels d) \<and> unat (labels d ! i) < 10"

text \<open>The invariants of the data model: \<^verbatim>\<open>num_items\<close> images of \<^verbatim>\<open>NUM_PIXELS\<close>
  pixels each, as many labels, every label in \<open>0..9\<close>; an index subset holds
  positions of the dataset.\<close>

definition wf_dataset :: "Dataset \<Rightarrow> bool" where
  "wf_dataset d \<longleftrightarrow>
     0 \<le> num_items d \<and> length (images d) = nat (num_items d) \<and>
     length (labels d) = nat (num_items d) \<and>
     list_all (\<lambda>img. length (data img) = NUM_PIXELS) (images d) \<and>
     list_all (\<lambda>l. unat l < 10) (labels d)"

definition valid_subset :: "Dataset \<Rightarrow> nat list \<Rightarrow> bool" where
  "valid_subset d xs \<longleftrightarrow> list_all (\<lambda>i. i < nat (num_items d)) xs"

subsection \<open>Groups, label counts and the value of the impurity\<close>

definition low :: "Dataset \<Rightarrow> nat \<Rightarrow> nat \<Rightarrow> bool" where
  "low d p i \<longleftrightarrow> data (images d ! i) ! p < 128"

definition tally :: "Dataset \<Rightarrow> nat list \<Rightarrow> nat \<Rightarrow> int" where
  "tally d xs k = int (length (filter (\<lambda>i. unat (labels d ! i) = k) xs))"

definition tallies :: "Dataset \<Rightarrow> int list \<Rightarrow> nat list \<Rightarrow> int list" where
  "tallies d freq xs = map (\<lambda>k. freq ! k + tally d xs k) [0..<10]"

definition gini_term :: "int list \<Rightarrow> int \<Rightarrow> nat \<Rightarrow> double" where
  "gini_term freq cnt i =
     (let q = fdiv (d_of_int (freq ! i)) (d_of_int cnt) in fmul q (fsub (Fin 1) q))"

text \<open>The value that the second loop of \<^verbatim>\<open>gini_impurity\<close> adds for a label of share
  \<open>q\<close>: the share, the difference and the product are rounded, each in turn. The value of
  a group is the sum of the ten terms, rounded after each addition.\<close>

definition term_value :: "rat \<Rightarrow> rat" where
  "term_value q = (let a = round_value q in round_value (a * round_value (1 - a)))"

definition group_value :: "Dataset \<Rightarrow> nat list \<Rightarrow> rat" where
  "group_value d g =
     fold (\<lambda>k s. round_value (s + term_value (of_int (tally d g k) / of_nat (length g))))
       [0..<10] 0"

definition gini_value :: "Dataset \<Rightarrow> nat list \<Rightarrow> nat \<Rightarrow> double" where
  "gini_value d xs p =
     (let A = filter (low d p) xs; B = filter (\<lambda>i. \<not> low d p i) xs
      in if A = [] \<or> B = [] then NaN
         else Fin (round_value
                (round_value (round_value (group_value d A * of_nat (length A)) +
                              round_value (group_value d B * of_nat (length B)))
                 / of_nat (length xs))))"

text \<open>The sum that a group value approximates, without any rounding.\<close>

definition impurity_sum :: "Dataset \<Rightarrow> nat list \<Rightarrow> rat" where
  "impurity_sum d g =
     (\<Sum>k\<leftarrow>[0..<10]. (of_int (tally d g k) / of_nat (length g)) *
                      (1 - of_int (tally d g k) / of_nat (length g)))"

text \<open>The unit of the error bounds: the relative error \<open>2^-53\<close> of one rounding of a
  normal value, and the absolute error \<open>2^-1075\<close> of one rounding of a subnormal one.\<close>

definition kappa :: rat where
  "kappa = 1 / 2 ^ 53 + 1 / 2 ^ 1075"

subsection \<open>The impurity in the words of the specification\<close>

text \<open>The impurity as the specification words it: for each group one minus the sum,
  over the ten labels, of the squared share of the label; then the average of the two
  groups weighted by their sizes. First as a rational number, with no rounding.\<close>

definition exact_group_impurity :: "Dataset \<Rightarrow> nat list \<Rightarrow> rat" where
  "exact_group_impurity d g =
     1 - (\<Sum>label\<leftarrow>[0..<10]. (of_int (tally d g label) / of_nat (length g)) ^ 2)"

definition exact_gini :: "Dataset \<Rightarrow> nat list \<Rightarrow> nat \<Rightarrow> rat" where
  "exact_gini d xs p =
     (let A = filter (\<lambda>i. data (images d ! i) ! p < 128) xs;
          B = filter (\<lambda>i. \<not> data (images d ! i) ! p < 128) xs
      in (exact_group_impurity d A * of_nat (length A) +
          exact_group_impurity d B * of_nat (length B)) / of_nat (length xs))"

text \<open>Then the same formula computed in doubles, with the operations of the program.\<close>

definition spec_group_impurity :: "Dataset \<Rightarrow> nat list \<Rightarrow> double" where
  "spec_group_impurity d g =
     fsub (Fin 1)
       (fold (\<lambda>label s.
                let q = fdiv (d_of_int (tally d g label)) (d_of_int (int (length g)))
                in fadd s (fmul q q))
          [0..<10] (Fin 0))"

definition spec_gini :: "Dataset \<Rightarrow> nat list \<Rightarrow> nat \<Rightarrow> double" where
  "spec_gini d xs p =
     (let A = filter (\<lambda>i. data (images d ! i) ! p < 128) xs;
          B = filter (\<lambda>i. \<not> data (images d ! i) ! p < 128) xs
      in fdiv (fadd (fmul (spec_group_impurity d A) (d_of_int (int (length A))))
                    (fmul (spec_group_impurity d B) (d_of_int (int (length B)))))
              (d_of_int (int (length xs))))"

subsection \<open>Nodes of a tree, the tagged tree and its walk\<close>

text \<open>All nodes of a tree, the root first.\<close>

fun nodes :: "DTNode \<Rightarrow> DTNode list" where
  "nodes (DTNode px cls l r) =
     DTNode px cls l r #
       (case l of None \<Rightarrow> [] | Some a \<Rightarrow> nodes a) @ (case r of None \<Rightarrow> [] | Some b \<Rightarrow> nodes b)"

definition leaf_shape :: "DTNode \<Rightarrow> bool" where
  "leaf_shape m \<longleftrightarrow>
     pixel m = - 1 \<and> 0 \<le> classification m \<and> classification m \<le> 9 \<and>
     left m = None \<and> right m = None"

definition split_shape :: "DTNode \<Rightarrow> bool" where
  "split_shape m \<longleftrightarrow>
     classification m = - 1 \<and> 0 \<le> pixel m \<and> pixel m < 784 \<and>
     left m \<noteq> None \<and> right m \<noteq> None"

text \<open>The decision tree of the specification: a tagged node, and the walk of the
  classifier over it.\<close>

datatype tree = Leaf int | Split nat tree tree

fun walk :: "tree \<Rightarrow> 8 word list \<Rightarrow> int" where
  "walk (Leaf c) px = c"
| "walk (Split p l r) px = (if px ! p = 0 then walk l px else walk r px)"

text \<open>The tagged tree that a node stands for: a node without children is a leaf, a node
  with two children is a split on its pixel.\<close>

fun tree_of :: "DTNode \<Rightarrow> tree option" where
  "tree_of (DTNode px cls l r) =
     (case (l, r) of
        (None, None) \<Rightarrow> Some (Leaf cls)
      | (Some a, Some b) \<Rightarrow>
          (case (tree_of a, tree_of b) of
             (Some ta, Some tb) \<Rightarrow> Some (Split (nat px) ta tb)
           | _ \<Rightarrow> None)
      | _ \<Rightarrow> None)"

text \<open>The subsets that the leaves of a tree were built from, when the tree was built
  from \<open>xs\<close>: a split node hands the two groups of its pixel to its children.\<close>

fun leaf_subsets :: "Dataset \<Rightarrow> DTNode \<Rightarrow> nat list \<Rightarrow> nat list list" where
  "leaf_subsets d (DTNode px cls l r) xs =
     (case (l, r) of
        (Some a, Some b) \<Rightarrow>
          leaf_subsets d a (filter (low d (nat px)) xs) @
          leaf_subsets d b (filter (\<lambda>i. \<not> low d (nat px) i) xs)
      | _ \<Rightarrow> [xs])"

subsection \<open>Sample images and datasets\<close>

definition blank :: Image where
  "blank = \<lparr>sx = 28, sy = 28, data = replicate 784 0\<rparr>"

definition lit :: Image where
  "lit = \<lparr>sx = 28, sy = 28, data = 255 # replicate 783 0\<rparr>"

text \<open>An image whose pixel 0 has intensity 100: below 128, yet not 0, so the walk goes
  right at a split on pixel 0.\<close>

definition grey :: Image where
  "grey = \<lparr>sx = 28, sy = 28, data = 100 # replicate 783 0\<rparr>"

text \<open>Two identical images with the same label 3.\<close>

definition d_same :: Dataset where
  "d_same = \<lparr>num_items = 2, images = [blank, blank], labels = [3, 3]\<rparr>"

text \<open>Two identical images with different labels: no pixel separates them.\<close>

definition d_clash :: Dataset where
  "d_clash = \<lparr>num_items = 2, images = [blank, blank], labels = [0, 1]\<rparr>"

text \<open>Four images: label 0 with pixel 0 dark, twice, and label 1 with pixel 0 lit,
  twice; all other pixels equal.\<close>

definition d_four :: Dataset where
  "d_four = \<lparr>num_items = 4, images = [blank, blank, lit, lit], labels = [0, 0, 1, 1]\<rparr>"

text \<open>Four images: one with pixel 0 dark and label 0, three with pixel 0 lit and the
  labels 0, 0 and 1. The lit group has the shares 2/3 and 1/3, which no double holds.\<close>

definition d_round :: Dataset where
  "d_round = \<lparr>num_items = 4, images = [blank, lit, lit, lit], labels = [0, 0, 0, 1]\<rparr>"

section \<open>Closed forms of the iterations\<close>

subsection \<open>Faults and doubles\<close>

lemma bindE_Inr: "bindE (Inr x) f = f x"
  by (simp add: bindE_def)

lemma bindE_Inl: "bindE (Inl e) f = Inl e"
  by (simp add: bindE_def)

lemma bindE_eq_Inr: "bindE m f = Inr y \<longleftrightarrow> (\<exists>x. m = Inr x \<and> f x = Inr y)"
  by (cases m) (simp_all add: bindE_def)

lemma bindE_cong [fundef_cong]:
  "m = m' \<Longrightarrow> (\<And>x. m' = Inr x \<Longrightarrow> f x = f' x) \<Longrightarrow> bindE m f = bindE m' f'"
  by (cases m') (simp_all add: bindE_def)

lemma flt_not_NaN: "flt x y \<Longrightarrow> x \<noteq> NaN"
  by (cases x; cases y) simp_all

lemma feq_eq: "feq x y \<longleftrightarrow> x = y \<and> x \<noteq> NaN"
  by (cases x; cases y) simp_all

lemma fne_NAN: "fne x NAN"
  by (cases x) (simp_all add: fne_def NAN_def)

lemma fadd_NaN_right: "fadd x NaN = NaN"
  by (cases x) simp_all

lemma upt_10: "[0..<10] = [0, 1, 2, 3, 4, 5, 6, 7, 8, 9]"
  by (simp add: upt_rec)

lemma NUM_PIXELS_784: "NUM_PIXELS = 784"
  by (simp add: NUM_PIXELS_def WIDTH_def)

subsection \<open>Rounding to binary64\<close>

text \<open>Powers of two and the binary exponent.\<close>

lemma p2_add: "(2::rat) powi (m + n) = 2 powi m * 2 powi n"
  by (simp add: power_int_add)

lemma p2_diff: "(2::rat) powi (m - n) = 2 powi m / 2 powi n"
  by (simp add: power_int_diff)

lemma p2_pos: "(0::rat) < 2 powi m"
  by (simp add: power_int_def)

lemma p2_mono: "m \<le> n \<Longrightarrow> (2::rat) powi m \<le> 2 powi n"
  by (rule power_int_increasing) simp_all

lemma p2_less_imp: "(2::rat) powi m < 2 powi n \<Longrightarrow> m < n"
  using p2_mono [of n m] by (cases "m < n") auto

lemma bitlen_powi:
  assumes "0 < a"
  shows "(2::rat) powi (bitlen a - 1) \<le> of_int a \<and> of_int a < (2::rat) powi bitlen a"
proof -
  from assms have b1: "1 \<le> bitlen a" by (auto simp: bitlen_alt_def)
  from bitlen_bounds [OF assms] have "2 ^ nat (bitlen a - 1) \<le> a" "a < 2 ^ nat (bitlen a)"
    by simp_all
  then have "(of_int (2 ^ nat (bitlen a - 1)) :: rat) \<le> of_int a"
    "(of_int a :: rat) < of_int (2 ^ nat (bitlen a))"
    by (simp_all only: of_int_le_iff of_int_less_iff)
  with b1 show ?thesis by (simp add: power_int_nonneg_exp)
qed

lemma ilog2_bounds:
  assumes "0 < x"
  shows "2 powi ilog2 x \<le> x \<and> x < 2 powi (ilog2 x + 1)"
proof -
  obtain a b where q: "quotient_of x = (a, b)" by (cases "quotient_of x")
  then have b: "0 < b" and x: "x = of_int a / of_int b"
    using quotient_of_denom_pos quotient_of_div by blast+
  with assms have a: "0 < a" by (simp add: zero_less_divide_iff)
  define e where "e = bitlen a - bitlen b"
  note A = bitlen_powi [OF a] and B = bitlen_powi [OF b]
  have bpos: "(0::rat) < of_int b" using b by simp
  have up: "x < 2 powi (e + 1)"
  proof -
    have "x < 2 powi bitlen a / of_int b"
      unfolding x using A bpos by (intro divide_strict_right_mono) blast+
    also have "\<dots> \<le> 2 powi bitlen a / 2 powi (bitlen b - 1)"
    proof (rule divide_left_mono)
      show "(2::rat) powi (bitlen b - 1) \<le> of_int b" using B by blast
      show "(0::rat) \<le> 2 powi bitlen a" by (rule less_imp_le [OF p2_pos])
      show "(0::rat) < of_int b * 2 powi (bitlen b - 1)" by (intro mult_pos_pos bpos p2_pos)
    qed
    also have "\<dots> = 2 powi (e + 1)"
    proof -
      have "e + 1 = bitlen a - (bitlen b - 1)" by (simp add: e_def)
      then show ?thesis by (simp only: p2_diff)
    qed
    finally show ?thesis .
  qed
  have lo: "2 powi (e - 1) \<le> x"
  proof -
    have "e - 1 = (bitlen a - 1) - bitlen b" by (simp add: e_def)
    then have "(2::rat) powi (e - 1) = 2 powi (bitlen a - 1) / 2 powi bitlen b"
      by (simp only: p2_diff)
    also have "\<dots> \<le> of_int a / 2 powi bitlen b"
      using A by (intro divide_right_mono less_imp_le [OF p2_pos]) blast
    also have "\<dots> \<le> x" unfolding x
    proof (rule divide_left_mono)
      show "(of_int b :: rat) \<le> 2 powi bitlen b" using B by (simp add: less_imp_le)
      show "(0::rat) \<le> of_int a" using a by simp
      show "(0::rat) < 2 powi bitlen b * of_int b" by (intro mult_pos_pos bpos p2_pos)
    qed
    finally show ?thesis .
  qed
  have il: "ilog2 x = (if 2 powi e \<le> x then e else e - 1)"
    by (simp add: ilog2_def q e_def Let_def)
  show ?thesis
  proof (cases "2 powi e \<le> x")
    case True
    with il up show ?thesis by simp
  next
    case False
    with il lo show ?thesis by simp
  qed
qed

text \<open>Rounding to the nearest integer is monotone and errs by at most a half.\<close>

lemma round_even_of_int: "round_even (of_int n) = n"
  by (simp add: round_even_def)

lemma round_even_cases:
  "round_even r = \<lfloor>r\<rfloor> \<and> r - of_int \<lfloor>r\<rfloor> \<le> 1 / 2 \<or>
   round_even r = \<lfloor>r\<rfloor> + 1 \<and> 1 / 2 \<le> r - of_int \<lfloor>r\<rfloor>"
  by (auto simp add: round_even_def Let_def)

lemma round_even_error: "\<bar>of_int (round_even r) - r\<bar> \<le> 1 / 2"
proof -
  have "of_int \<lfloor>r\<rfloor> \<le> r" "r < of_int \<lfloor>r\<rfloor> + 1" by linarith+
  with round_even_cases [of r] show ?thesis by auto
qed

lemma round_even_mono:
  assumes "r \<le> s"
  shows "round_even r \<le> round_even s"
proof -
  from assms have fl: "\<lfloor>r\<rfloor> \<le> \<lfloor>s\<rfloor>" by (rule floor_mono)
  show ?thesis
  proof (cases "\<lfloor>r\<rfloor> = \<lfloor>s\<rfloor>")
    case True
    with assms have "r - of_int \<lfloor>r\<rfloor> \<le> s - of_int \<lfloor>s\<rfloor>" by simp
    with True show ?thesis by (auto simp add: round_even_def Let_def)
  next
    case False
    with fl have "\<lfloor>r\<rfloor> + 1 \<le> \<lfloor>s\<rfloor>" by simp
    moreover from round_even_cases [of r] have "round_even r \<le> \<lfloor>r\<rfloor> + 1" by auto
    moreover from round_even_cases [of s] have "\<lfloor>s\<rfloor> \<le> round_even s" by auto
    ultimately show ?thesis by linarith
  qed
qed

text \<open>Rounding to binary64 keeps the sign, keeps every value of 53 significant bits, is
  monotone, and errs by at most half a spacing.\<close>

lemma round_value_pos:
  "0 < x \<Longrightarrow> round_value x = of_int (round_even (x / 2 powi quantum x)) * 2 powi quantum x"
  by (simp add: round_value_def)

lemma round_value_0: "round_value 0 = 0"
  by (simp add: round_value_def)

lemma round_value_nonneg:
  assumes "0 \<le> x"
  shows "0 \<le> round_value x"
proof (cases "x = 0")
  case True
  then show ?thesis by (simp add: round_value_0)
next
  case False
  with assms have x: "0 < x" by simp
  then have "0 \<le> x / 2 powi quantum x" using p2_pos [of "quantum x"] by simp
  then have "round_even 0 \<le> round_even (x / 2 powi quantum x)" by (rule round_even_mono)
  then have "0 \<le> round_even (x / 2 powi quantum x)"
    using round_even_of_int [of 0] by simp
  then show ?thesis
    using p2_pos [of "quantum x"] by (simp add: round_value_pos [OF x])
qed

lemma ilog2_mono:
  assumes "0 < x" and "x \<le> y"
  shows "ilog2 x \<le> ilog2 y"
proof -
  from assms have y: "0 < y" by simp
  from ilog2_bounds [OF assms(1)] ilog2_bounds [OF y] assms(2)
  have "(2::rat) powi ilog2 x < 2 powi (ilog2 y + 1)" by linarith
  then have "ilog2 x < ilog2 y + 1" by (rule p2_less_imp)
  then show ?thesis by simp
qed

lemma ilog2_less:
  assumes "0 < x" and "x < 2 powi n"
  shows "ilog2 x < n"
proof -
  from ilog2_bounds [OF assms(1)] assms(2) have "(2::rat) powi ilog2 x < 2 powi n" by linarith
  then show ?thesis by (rule p2_less_imp)
qed

lemma ilog2_ge:
  assumes "2 powi n \<le> x"
  shows "n \<le> ilog2 x"
proof -
  from assms p2_pos [of n] have x: "0 < x" by linarith
  from ilog2_bounds [OF x] assms have "(2::rat) powi n < 2 powi (ilog2 x + 1)" by linarith
  then have "n < ilog2 x + 1" by (rule p2_less_imp)
  then show ?thesis by simp
qed

lemma quantum_pos: "0 < x \<Longrightarrow> quantum x = max (ilog2 x) (- 1022) - 52"
  by (simp add: quantum_def)

lemma round_value_exact:
  assumes j: "0 < j" "j < 2 ^ 53" and k: "- 1074 \<le> k"
  shows "round_value (of_int j * 2 powi k) = of_int j * 2 powi k"
proof -
  define x :: rat where "x = of_int j * 2 powi k"
  define q where "q = quantum x"
  have x: "0 < x" unfolding x_def using j(1) p2_pos [of k] by simp
  have "(of_int j :: rat) < of_int (2 ^ 53)" using j(2) by (simp only: of_int_less_iff)
  then have "x < 2 powi 53 * 2 powi k"
    unfolding x_def using p2_pos [of k] by simp
  then have "x < 2 powi (53 + k)" by (simp only: p2_add)
  from ilog2_less [OF x this] k have qk: "q \<le> k"
    by (simp add: q_def quantum_pos [OF x])
  define n where "n = nat (k - q)"
  have kq: "k = int n + q" using qk by (simp add: n_def)
  have "(2::rat) powi k = 2 powi (int n) * 2 powi q"
    unfolding kq by (rule p2_add)
  then have pk: "(2::rat) powi k = of_int (2 ^ n) * 2 powi q" by simp
  have xq: "x = of_int (j * 2 ^ n) * 2 powi q"
    unfolding x_def pk by simp
  have "x / 2 powi q = of_int (j * 2 ^ n)"
    unfolding xq using p2_pos [of q] by simp
  then have "round_even (x / 2 powi q) = j * 2 ^ n"
    by (simp only: round_even_of_int)
  then have "round_value x = of_int (j * 2 ^ n) * 2 powi q"
    by (simp only: round_value_pos [OF x] q_def [symmetric])
  then have "round_value x = x" by (simp only: xq [symmetric])
  then show ?thesis by (simp only: x_def)
qed

lemma round_value_error:
  assumes "0 \<le> x"
  shows "\<bar>round_value x - x\<bar> \<le> x / 2 ^ 53 + 1 / 2 ^ 1075"
proof (cases "x = 0")
  case True
  then show ?thesis by (simp add: round_value_0)
next
  case False
  with assms have x: "0 < x" by simp
  define q where "q = quantum x"
  define y where "y = x / 2 powi q"
  have xy: "x = y * 2 powi q" using p2_pos [of q] by (simp add: y_def)
  have "round_value x - x = (of_int (round_even y) - y) * 2 powi q"
    by (simp add: round_value_pos [OF x] q_def [symmetric] y_def [symmetric] xy [symmetric]
        algebra_simps)
  then have "\<bar>round_value x - x\<bar> = \<bar>of_int (round_even y) - y\<bar> * 2 powi q"
    using p2_pos [of q] by (simp add: abs_mult)
  also have "\<dots> \<le> (1 / 2) * 2 powi q"
    using round_even_error [of y] p2_pos [of q] by (intro mult_right_mono) simp_all
  finally have e1: "\<bar>round_value x - x\<bar> \<le> 2 powi q / 2" by simp
  have "2 powi q \<le> x / 2 ^ 52 + 1 / 2 ^ 1074"
  proof (cases "- 1022 \<le> ilog2 x")
    case True
    then have "q = ilog2 x - 52" by (simp add: q_def quantum_pos [OF x])
    then have "(2::rat) powi q = 2 powi ilog2 x / 2 powi 52" by (simp only: p2_diff)
    also have "\<dots> \<le> x / 2 powi 52"
      using ilog2_bounds [OF x] by (intro divide_right_mono) simp_all
    finally show ?thesis by simp
  next
    case False
    then have "q = - 1074" by (simp add: q_def quantum_pos [OF x])
    then have "(2::rat) powi q = 1 / 2 ^ 1074" by (simp add: power_int_minus_divide)
    with x show ?thesis by simp
  qed
  with e1 show ?thesis by simp
qed

lemma round_value_mono:
  assumes "0 \<le> x" and "x \<le> y"
  shows "round_value x \<le> round_value y"
proof (cases "x = 0")
  case True
  with assms round_value_nonneg [of y] show ?thesis by (simp add: round_value_0)
next
  case False
  with assms have x: "0 < x" and y: "0 < y" by simp_all
  from ilog2_mono [OF x assms(2)] have qq: "quantum x \<le> quantum y"
    by (simp add: quantum_pos [OF x] quantum_pos [OF y])
  show ?thesis
  proof (cases "quantum x = quantum y")
    case True
    have "x / 2 powi quantum y \<le> y / 2 powi quantum y"
      using assms(2) p2_pos [of "quantum y"] by (simp add: divide_right_mono)
    then have "round_even (x / 2 powi quantum y) \<le> round_even (y / 2 powi quantum y)"
      by (rule round_even_mono)
    then have "(of_int (round_even (x / 2 powi quantum y)) :: rat)
        \<le> of_int (round_even (y / 2 powi quantum y))"
      by (simp only: of_int_le_iff)
    then show ?thesis
      using p2_pos [of "quantum y"]
      by (simp add: round_value_pos [OF x] round_value_pos [OF y] True)
  next
    case False
    with qq have lt: "quantum x < quantum y" by simp
    define E where "E = quantum y + 52"
    have "- 1074 \<le> quantum x" by (simp add: quantum_pos [OF x])
    with lt have "- 1022 < E" by (simp add: E_def)
    then have Ey: "E = ilog2 y" by (simp add: E_def quantum_pos [OF y] max_def split: if_splits)
    with ilog2_bounds [OF y] have yE: "2 powi E \<le> y" by simp
    have xE: "x < 2 powi E"
    proof (rule ccontr)
      assume "\<not> x < 2 powi E"
      then have "2 powi E \<le> x" by simp
      then have "E \<le> ilog2 x" by (rule ilog2_ge)
      then have "quantum y \<le> quantum x" by (simp add: E_def quantum_pos [OF x])
      with lt show False by simp
    qed
    have hi: "2 powi E \<le> round_value y"
    proof -
      have "(2::rat) powi E / 2 powi quantum y = 2 powi 52"
        by (simp add: E_def p2_add)
      then have "(of_int (2 ^ 52) :: rat) \<le> y / 2 powi quantum y"
        using yE p2_pos [of "quantum y"] divide_right_mono [of "2 powi E" y "2 powi quantum y"]
        by simp
      then have "round_even (of_int (2 ^ 52)) \<le> round_even (y / 2 powi quantum y)"
        by (rule round_even_mono)
      then have "(of_int (2 ^ 52) :: rat) \<le> of_int (round_even (y / 2 powi quantum y))"
        by (simp only: round_even_of_int of_int_le_iff)
      then have "of_int (2 ^ 52) * 2 powi quantum y \<le> round_value y"
        using p2_pos [of "quantum y"] by (simp add: round_value_pos [OF y])
      moreover have "(of_int (2 ^ 52) :: rat) * 2 powi quantum y = 2 powi E"
        by (simp add: E_def p2_add)
      ultimately show ?thesis by simp
    qed
    have lo: "round_value x \<le> 2 powi E"
    proof -
      define n where "n = nat (E - quantum x)"
      have En: "E = int n + quantum x" using lt by (simp add: n_def E_def)
      have pw: "(2::rat) powi E = of_int (2 ^ n) * 2 powi quantum x"
        by (subst En, simp only: p2_add) simp
      then have "x / 2 powi quantum x \<le> of_int (2 ^ n)"
        using xE p2_pos [of "quantum x"] by (simp add: pos_divide_le_eq)
      then have "round_even (x / 2 powi quantum x) \<le> round_even (of_int (2 ^ n))"
        by (rule round_even_mono)
      then have "(of_int (round_even (x / 2 powi quantum x)) :: rat) \<le> of_int (2 ^ n)"
        by (simp only: round_even_of_int of_int_le_iff)
      then show ?thesis
        using p2_pos [of "quantum x"] by (simp add: round_value_pos [OF x] pw)
    qed
    from lo hi show ?thesis by linarith
  qed
qed

text \<open>Values between 0 and 1, and the rounded term of one label.\<close>

lemma kappa_pos: "0 < kappa"
  by (simp add: kappa_def)

lemma kappa_small: "128 * kappa \<le> 1 / 2 ^ 45"
  by (simp add: kappa_def)

lemma round_value_1: "round_value 1 = 1"
  using round_value_exact [of 1 0] by simp

lemma round_value_unit:
  assumes "0 \<le> x" and "x \<le> 1"
  shows "0 \<le> round_value x \<and> round_value x \<le> 1"
  using round_value_nonneg [OF assms(1)] round_value_mono [OF assms] by (simp add: round_value_1)

lemma round_value_err_le:
  assumes "0 \<le> x" and "x \<le> c"
  shows "\<bar>round_value x - x\<bar> \<le> c / 2 ^ 53 + 1 / 2 ^ 1075"
proof -
  have "x / 2 ^ 53 \<le> c / 2 ^ 53" using assms(2) by (simp add: divide_right_mono)
  with round_value_error [OF assms(1)] show ?thesis by linarith
qed

lemma round_value_err_1:
  assumes "0 \<le> x" and "x \<le> 1"
  shows "\<bar>round_value x - x\<bar> \<le> kappa"
  using round_value_err_le [OF assms] by (simp add: kappa_def)

lemma round_value_err_2:
  assumes "0 \<le> x" and "x \<le> 2"
  shows "\<bar>round_value x - x\<bar> \<le> 2 * kappa"
proof -
  have "(2::rat) / 2 ^ 53 + 1 / 2 ^ 1075 \<le> 2 * kappa" by (simp add: kappa_def)
  with round_value_err_le [OF assms] show ?thesis by linarith
qed

lemma term_value_bounds:
  assumes "0 \<le> q" and "q \<le> 1"
  shows "0 \<le> term_value q \<and> term_value q \<le> 1 \<and> \<bar>term_value q - q * (1 - q)\<bar> \<le> 3 * kappa"
proof -
  define a where "a = round_value q"
  define s where "s = round_value (1 - a)"
  define t where "t = round_value (a * s)"
  have a: "0 \<le> a" "a \<le> 1" and ea: "\<bar>a - q\<bar> \<le> kappa"
    using round_value_unit [OF assms] round_value_err_1 [OF assms] by (simp_all add: a_def)
  from a have a1: "0 \<le> 1 - a" "1 - a \<le> 1" by simp_all
  have s: "0 \<le> s" "s \<le> 1" and es: "\<bar>s - (1 - a)\<bar> \<le> kappa"
    using round_value_unit [OF a1] round_value_err_1 [OF a1] by (simp_all add: s_def)
  have as: "0 \<le> a * s" "a * s \<le> 1"
    using a s by (simp_all add: mult_le_one)
  have t: "0 \<le> t" "t \<le> 1" and et: "\<bar>t - a * s\<bar> \<le> kappa"
    using round_value_unit [OF as] round_value_err_1 [OF as] by (simp_all add: t_def)
  have "a * s - q * (1 - q) = a * (s - (1 - a)) + (a - q) * (1 - a - q)"
    by (simp add: algebra_simps)
  moreover have "\<bar>a * (s - (1 - a))\<bar> \<le> kappa"
  proof -
    have "\<bar>a * (s - (1 - a))\<bar> = a * \<bar>s - (1 - a)\<bar>" using a by (simp add: abs_mult)
    also have "\<dots> \<le> 1 * kappa" using a es by (intro mult_mono) simp_all
    finally show ?thesis by simp
  qed
  moreover have "\<bar>(a - q) * (1 - a - q)\<bar> \<le> kappa"
  proof -
    have "\<bar>1 - a - q\<bar> \<le> 1" using a assms by (simp add: abs_le_iff)
    then have "\<bar>a - q\<bar> * \<bar>1 - a - q\<bar> \<le> kappa * 1"
      using ea by (intro mult_mono) simp_all
    then show ?thesis by (simp add: abs_mult)
  qed
  ultimately have "\<bar>a * s - q * (1 - q)\<bar> \<le> 2 * kappa" by linarith
  with et have "\<bar>t - q * (1 - q)\<bar> \<le> 3 * kappa" by linarith
  with t show ?thesis by (simp add: term_value_def Let_def a_def s_def t_def)
qed

text \<open>Accumulating rounded terms.\<close>

lemma fold_round_sum:
  assumes "\<forall>k\<in>set ks. 0 \<le> t k \<and> 0 \<le> u k \<and> \<bar>t k - u k\<bar> \<le> 3 * kappa"
    and "0 \<le> a" and "0 \<le> e" and "\<bar>a - e\<bar> \<le> E"
    and "e + sum_list (map u ks) \<le> 1"
    and "E + 5 * kappa * of_nat (length ks) \<le> 1 / 2"
  shows "0 \<le> fold (\<lambda>k s. round_value (s + t k)) ks a \<and>
         \<bar>fold (\<lambda>k s. round_value (s + t k)) ks a - (e + sum_list (map u ks))\<bar>
           \<le> E + 5 * kappa * of_nat (length ks)"
  using assms
proof (induction ks arbitrary: a e E)
  case Nil
  then show ?case by simp
next
  case (Cons k ks)
  from Cons.prems(1) have tk: "0 \<le> t k" "0 \<le> u k" "\<bar>t k - u k\<bar> \<le> 3 * kappa"
    and rest: "\<forall>k\<in>set ks. 0 \<le> t k \<and> 0 \<le> u k \<and> \<bar>t k - u k\<bar> \<le> 3 * kappa"
    by simp_all
  have us: "0 \<le> sum_list (map u ks)"
    using rest by (intro sum_list_nonneg) auto
  define a' where "a' = round_value (a + t k)"
  have kp: "0 < kappa" by (rule kappa_pos)
  have len: "0 \<le> 5 * kappa * of_nat (length ks)" using kp by simp
  from Cons.prems(6) have E: "E + 5 * kappa + 5 * kappa * of_nat (length ks) \<le> 1 / 2"
    by (simp add: algebra_simps)
  from Cons.prems(5) us tk(2) Cons.prems(3) have eu: "e + u k \<le> 1" by simp
  have sum0: "0 \<le> a + t k" using Cons.prems(2) tk(1) by simp
  have "a + t k \<le> (e + E) + (u k + 3 * kappa)"
    using Cons.prems(4) tk(3) by linarith
  with eu E len kp have sum2: "a + t k \<le> 2" by linarith
  from round_value_err_2 [OF sum0 sum2] have ea': "\<bar>a' - (a + t k)\<bar> \<le> 2 * kappa"
    by (simp add: a'_def)
  have a'0: "0 \<le> a'" unfolding a'_def using sum0 by (rule round_value_nonneg)
  have err: "\<bar>a' - (e + u k)\<bar> \<le> E + 5 * kappa"
    using ea' Cons.prems(4) tk(3) by linarith
  have e0: "0 \<le> e + u k" using Cons.prems(3) tk(2) by simp
  have tot: "(e + u k) + sum_list (map u ks) \<le> 1" using Cons.prems(5) by simp
  have bud: "(E + 5 * kappa) + 5 * kappa * of_nat (length ks) \<le> 1 / 2" using E by simp
  from Cons.IH [OF rest a'0 e0 err tot bud]
  show ?case by (simp add: a'_def algebra_simps)
qed

lemma share_term_le:
  fixes q :: rat
  shows "q * (1 - q) \<le> 4 / 5 * q + 1 / 100"
proof -
  have "0 \<le> (q - 1 / 10) * (q - 1 / 10)" by simp
  then show ?thesis by (simp add: algebra_simps)
qed

lemma sum_share_terms_le:
  fixes q :: "nat \<Rightarrow> rat"
  shows "(\<Sum>k\<leftarrow>ks. q k * (1 - q k)) \<le> 4 / 5 * (\<Sum>k\<leftarrow>ks. q k) + of_nat (length ks) / 100"
proof (induction ks)
  case Nil
  show ?case by simp
next
  case (Cons k ks)
  have "(\<Sum>j\<leftarrow>k # ks. q j * (1 - q j)) = q k * (1 - q k) + (\<Sum>j\<leftarrow>ks. q j * (1 - q j))"
    by simp
  also have "\<dots> \<le> (4 / 5 * q k + 1 / 100)
      + (4 / 5 * (\<Sum>j\<leftarrow>ks. q j) + of_nat (length ks) / 100)"
    using share_term_le [of "q k"] Cons.IH by (rule add_mono)
  also have "\<dots> = 4 / 5 * (\<Sum>j\<leftarrow>k # ks. q j) + of_nat (length (k # ks)) / 100"
    by (simp add: algebra_simps add_divide_distrib)
  finally show ?case .
qed

text \<open>The accumulated impurity of one group whose shares add up to 1.\<close>

lemma group_sum_bounds:
  fixes q :: "nat \<Rightarrow> rat"
  assumes "\<forall>k\<in>set ks. 0 \<le> q k \<and> q k \<le> 1"
    and "(\<Sum>k\<leftarrow>ks. q k) = 1" and "length ks = 10"
  shows "0 \<le> fold (\<lambda>k s. round_value (s + term_value (q k))) ks 0 \<and>
         \<bar>fold (\<lambda>k s. round_value (s + term_value (q k))) ks 0 - (\<Sum>k\<leftarrow>ks. q k * (1 - q k))\<bar>
           \<le> 50 * kappa \<and>
         0 \<le> (\<Sum>k\<leftarrow>ks. q k * (1 - q k)) \<and> (\<Sum>k\<leftarrow>ks. q k * (1 - q k)) \<le> 9 / 10"
proof -
  have S9: "(\<Sum>k\<leftarrow>ks. q k * (1 - q k)) \<le> 9 / 10"
    using sum_share_terms_le [of q ks] assms(2,3) by simp
  have S0: "0 \<le> (\<Sum>k\<leftarrow>ks. q k * (1 - q k))"
    using assms(1) by (intro sum_list_nonneg) auto
  have terms: "\<forall>k\<in>set ks. 0 \<le> term_value (q k) \<and> 0 \<le> q k * (1 - q k) \<and>
      \<bar>term_value (q k) - q k * (1 - q k)\<bar> \<le> 3 * kappa"
  proof
    fix k
    assume "k \<in> set ks"
    with assms(1) have q: "0 \<le> q k" "q k \<le> 1" by simp_all
    from term_value_bounds [OF q] q
    show "0 \<le> term_value (q k) \<and> 0 \<le> q k * (1 - q k) \<and>
      \<bar>term_value (q k) - q k * (1 - q k)\<bar> \<le> 3 * kappa"
      by simp
  qed
  have bud: "0 + 5 * kappa * of_nat (length ks) \<le> 1 / 2"
    using kappa_small kappa_pos by (simp add: assms(3))
  have tot: "0 + (\<Sum>k\<leftarrow>ks. q k * (1 - q k)) \<le> 1" using S9 by simp
  from fold_round_sum [of ks "\<lambda>k. term_value (q k)" "\<lambda>k. q k * (1 - q k)" 0 0 0, OF terms _ _ _ tot bud]
  have "0 \<le> fold (\<lambda>k s. round_value (s + term_value (q k))) ks 0 \<and>
         \<bar>fold (\<lambda>k s. round_value (s + term_value (q k))) ks 0 - (\<Sum>k\<leftarrow>ks. q k * (1 - q k))\<bar>
           \<le> 50 * kappa"
    by (simp add: assms(3))
  with S0 S9 show ?thesis by blast
qed

lemma count_kappa:
  assumes "1 \<le> c"
  shows "c / 2 ^ 53 + 1 / 2 ^ 1075 \<le> c * kappa"
proof -
  have "(1::rat) / 2 ^ 1075 \<le> c * (1 / 2 ^ 1075)" using assms by simp
  then show ?thesis by (simp add: kappa_def algebra_simps)
qed

text \<open>The weighted average of two group impurities.\<close>

lemma weighted_bounds:
  fixes gA gB SA SB nA nB :: rat
  assumes gA: "0 \<le> gA" "\<bar>gA - SA\<bar> \<le> 50 * kappa" "0 \<le> SA" "SA \<le> 9 / 10"
    and gB: "0 \<le> gB" "\<bar>gB - SB\<bar> \<le> 50 * kappa" "0 \<le> SB" "SB \<le> 9 / 10"
    and n: "1 \<le> nA" "1 \<le> nB"
  shows "0 \<le> round_value (round_value (round_value (gA * nA) + round_value (gB * nB)) / (nA + nB)) \<and>
         round_value (round_value (round_value (gA * nA) + round_value (gB * nB)) / (nA + nB)) \<le> 1 \<and>
         \<bar>round_value (round_value (round_value (gA * nA) + round_value (gB * nB)) / (nA + nB))
            - (SA * nA + SB * nB) / (nA + nB)\<bar> \<le> 53 * kappa"
proof -
  define M where "M = nA + nB"
  define W where "W = SA * nA + SB * nB"
  have kp: "0 < kappa" by (rule kappa_pos)
  have k128: "128 * kappa \<le> 1 / 2 ^ 45" by (rule kappa_small)
  have ksm: "53 * kappa \<le> 1 / 10"
  proof -
    have "(1::rat) / 2 ^ 45 \<le> 1 / 10" by simp
    with k128 kp show ?thesis by linarith
  qed
  have M: "1 \<le> M" "0 < M" using n by (simp_all add: M_def)
  have part: "0 \<le> round_value (g * c) \<and> \<bar>round_value (g * c) - S * c\<bar> \<le> 51 * kappa * c"
    if g: "0 \<le> g" "\<bar>g - S\<bar> \<le> 50 * kappa" "0 \<le> S" "S \<le> 9 / 10" and c: "1 \<le> c"
    for g S c :: rat
  proof -
    have c0: "0 \<le> c" using c by simp
    have P0: "0 \<le> g * c" using g(1) c0 by simp
    have "g \<le> 1" using g(2,4) ksm kp by linarith
    then have "g * c \<le> 1 * c" using c0 by (intro mult_right_mono)
    then have Pc: "g * c \<le> c" by simp
    from round_value_err_le [OF P0 Pc] count_kappa [OF c]
    have e1: "\<bar>round_value (g * c) - g * c\<bar> \<le> c * kappa" by linarith
    have "\<bar>g * c - S * c\<bar> = \<bar>g - S\<bar> * c" using c0 by (simp add: abs_mult left_diff_distrib [symmetric])
    also have "\<dots> \<le> 50 * kappa * c" using g(2) c0 by (intro mult_right_mono)
    finally have e2: "\<bar>g * c - S * c\<bar> \<le> 50 * kappa * c" .
    from e1 e2 have "\<bar>round_value (g * c) - S * c\<bar> \<le> 51 * kappa * c" by (simp add: algebra_simps)
    with round_value_nonneg [OF P0] show ?thesis by simp
  qed
  define rP where "rP = round_value (gA * nA)"
  define rQ where "rQ = round_value (gB * nB)"
  from part [OF gA n(1)] have rP: "0 \<le> rP" "\<bar>rP - SA * nA\<bar> \<le> 51 * kappa * nA" by (simp_all add: rP_def)
  from part [OF gB n(2)] have rQ: "0 \<le> rQ" "\<bar>rQ - SB * nB\<bar> \<le> 51 * kappa * nB" by (simp_all add: rQ_def)
  have W: "0 \<le> W" "W \<le> 9 / 10 * M"
  proof -
    show "0 \<le> W" unfolding W_def using gA(3) gB(3) n by simp
    have "SA * nA \<le> 9 / 10 * nA" "SB * nB \<le> 9 / 10 * nB"
      using gA(4) gB(4) n by (simp_all add: mult_right_mono)
    then show "W \<le> 9 / 10 * M" by (simp add: W_def M_def algebra_simps)
  qed
  have Y: "0 \<le> rP + rQ" "\<bar>(rP + rQ) - W\<bar> \<le> 51 * (kappa * M)"
  proof -
    show "0 \<le> rP + rQ" using rP(1) rQ(1) by simp
    have "51 * (kappa * M) = 51 * kappa * nA + 51 * kappa * nB" by (simp add: M_def algebra_simps)
    with rP(2) rQ(2) show "\<bar>(rP + rQ) - W\<bar> \<le> 51 * (kappa * M)"
      unfolding W_def by linarith
  qed
  have kM: "0 \<le> kappa * M" using kp M by simp
  have "53 * (kappa * M) \<le> 1 / 10 * M" using ksm M(2) by simp
  then have slack: "9 / 10 * M + 53 * (kappa * M) \<le> M" by simp
  have YM: "rP + rQ \<le> M" using Y(2) W(2) slack kM by linarith
  define X where "X = round_value (rP + rQ)"
  from round_value_err_le [OF Y(1) YM] count_kappa [OF M(1)]
  have eX: "\<bar>X - (rP + rQ)\<bar> \<le> kappa * M" by (simp add: X_def mult.commute)
  have X0: "0 \<le> X" unfolding X_def using Y(1) by (rule round_value_nonneg)
  have XW: "\<bar>X - W\<bar> \<le> 52 * (kappa * M)" using eX Y(2) by linarith
  define Z where "Z = X / M"
  have Z0: "0 \<le> Z" using X0 M(2) by (simp add: Z_def)
  have "\<bar>Z - W / M\<bar> = \<bar>X - W\<bar> / M" using M(2) by (simp add: Z_def diff_divide_distrib [symmetric])
  also have "\<dots> \<le> 52 * (kappa * M) / M" using XW M(2) by (intro divide_right_mono) simp_all
  also have "\<dots> = 52 * kappa" using M(2) by simp
  finally have eZ: "\<bar>Z - W / M\<bar> \<le> 52 * kappa" .
  have "W / M \<le> 9 / 10" using W(2) M(2) by (simp add: pos_divide_le_eq)
  with eZ ksm kp have Z1: "Z \<le> 1" by linarith
  from round_value_unit [OF Z0 Z1] round_value_err_1 [OF Z0 Z1] eZ
  have "0 \<le> round_value Z \<and> round_value Z \<le> 1 \<and> \<bar>round_value Z - W / M\<bar> \<le> 53 * kappa"
    by linarith
  then show ?thesis
    by (simp only: Z_def X_def rP_def rQ_def W_def M_def)
qed

subsection \<open>The counting loop and the value of gini_impurity\<close>

lemma tallies_Nil: "length freq = 10 \<Longrightarrow> tallies d freq [] = freq"
  by (simp add: tallies_def tally_def list_eq_iff_nth_eq)

lemma tallies_Cons:
  "length freq = 10 \<Longrightarrow> unat (labels d ! i) < 10 \<Longrightarrow>
   tallies d (freq[unat (labels d ! i) := freq ! unat (labels d ! i) + 1]) xs = tallies d freq (i # xs)"
  by (auto simp add: tallies_def tally_def nth_list_update)

lemma tallies_zero_nth: "k < 10 \<Longrightarrow> tallies d (replicate 10 0) xs ! k = tally d xs k"
  by (simp add: tallies_def del: upt_Suc)

lemma tally_Cons:
  "tally d (i # g) k = tally d g k + (if unat (labels d ! i) = k then 1 else 0)"
  by (simp add: tally_def)

lemma gini_count_eq:
  "length a_freq = 10 \<Longrightarrow> length b_freq = 10 \<Longrightarrow>
   gini_count d p xs (a_freq, a_count, b_freq, b_count) =
     (if \<forall>i\<in>set xs. in_bounds d p i
      then Inr (tallies d a_freq (filter (low d p) xs),
                a_count + int (length (filter (low d p) xs)),
                tallies d b_freq (filter (\<lambda>i. \<not> low d p i) xs),
                b_count + int (length (filter (\<lambda>i. \<not> low d p i) xs)))
      else Inl OutOfBounds)"
proof (induction xs arbitrary: a_freq a_count b_freq b_count)
  case Nil
  then show ?case by (simp add: tallies_Nil)
next
  case (Cons i xs)
  show ?case
  proof (cases "in_bounds d p i")
    case False
    then show ?thesis
      by (auto simp add: in_bounds_def pixel_at_def label_at_def incr_def bindE_def Cons.prems)
  next
    case True
    then have px: "pixel_at d i p = Inr (data (images d ! i) ! p)"
      and lb: "label_at d i = Inr (unat (labels d ! i))"
      and l10: "unat (labels d ! i) < 10"
      by (simp_all add: in_bounds_def pixel_at_def label_at_def)
    show ?thesis
    proof (cases "low d p i")
      case True
      then have "data (images d ! i) ! p < 128" by (simp add: low_def)
      with True \<open>in_bounds d p i\<close> px lb l10 Cons.prems show ?thesis
        by (simp add: bindE_Inr incr_def Cons.IH tallies_Cons)
    next
      case False
      then have "\<not> data (images d ! i) ! p < 128" by (simp add: low_def)
      with False \<open>in_bounds d p i\<close> px lb l10 Cons.prems show ?thesis
        by (simp add: bindE_Inr incr_def Cons.IH tallies_Cons)
    qed
  qed
qed

lemma fold_gini_step:
  "fold (gini_step a_freq a_count b_freq b_count) ks (x, y) =
     (fold (\<lambda>i g. fadd g (gini_term a_freq a_count i)) ks x,
      fold (\<lambda>i g. fadd g (gini_term b_freq b_count i)) ks y)"
  by (induction ks arbitrary: x y) (simp_all add: gini_step_def gini_term_def Let_def)

lemma gini_term_Fin:
  "cnt \<noteq> 0 \<Longrightarrow>
   gini_term freq cnt i = Fin (term_value (of_int (freq ! i) / of_int cnt))"
  by (simp add: gini_term_def d_of_int_def fsub_def term_value_def Let_def)

lemma gini_term_NaN: "freq ! i = 0 \<Longrightarrow> gini_term freq 0 i = NaN"
  by (simp add: gini_term_def d_of_int_def)

lemma fold_fadd_Fin:
  "fold (\<lambda>i g. fadd g (Fin (f i))) ks (Fin a) =
     Fin (fold (\<lambda>i s. round_value (s + f i)) ks a)"
  by (induction ks arbitrary: a) simp_all

lemma fold_fadd_NaN:
  "fold (\<lambda>i g. fadd g (t i)) ks NaN = NaN"
  by (induction ks) simp_all

lemma fold_gini_term_Fin:
  "cnt \<noteq> 0 \<Longrightarrow>
   fold (\<lambda>i g. fadd g (gini_term freq cnt i)) ks (Fin a) =
     Fin (fold (\<lambda>i s. round_value (s + term_value (of_int (freq ! i) / of_int cnt))) ks a)"
  by (simp add: gini_term_Fin fold_fadd_Fin)

lemma fold_gini_term_NaN:
  "ks \<noteq> [] \<Longrightarrow> \<forall>i\<in>set ks. freq ! i = 0 \<Longrightarrow>
   fold (\<lambda>i g. fadd g (gini_term freq 0 i)) ks x = NaN"
  by (cases ks) (simp_all add: gini_term_NaN fadd_NaN_right fold_fadd_NaN)

lemma group_fold_Fin:
  "g \<noteq> [] \<Longrightarrow>
   fold (\<lambda>i s. fadd s (gini_term (tallies d (replicate 10 0) g) (int (length g)) i)) [0..<10] (Fin 0)
     = Fin (group_value d g)"
proof -
  assume "g \<noteq> []"
  then have nz: "int (length g) \<noteq> 0" by simp
  have "fold (\<lambda>i s. round_value (s + term_value
            (of_int (tallies d (replicate 10 0) g ! i) / of_int (int (length g))))) [0..<10] 0
        = group_value d g"
    unfolding group_value_def
    by (rule fold_cong) (simp_all add: tallies_zero_nth)
  then show ?thesis
    by (simp only: fold_gini_term_Fin [OF nz])
qed

lemma group_fold_NaN:
  "fold (\<lambda>i s. fadd s (gini_term (tallies d (replicate 10 0) []) 0 i)) [0..<10] (Fin 0) = NaN"
  by (rule fold_gini_term_NaN) (simp_all add: tallies_Nil)

lemma gini_impurity_eq:
  "gini_impurity d xs p =
     (if \<forall>i\<in>set xs. in_bounds d p i then Inr (gini_value d xs p) else Inl OutOfBounds)"
proof (cases "\<forall>i\<in>set xs. in_bounds d p i")
  case False
  have "gini_count d p xs (replicate 10 0, 0, replicate 10 0, 0) = Inl OutOfBounds"
    by (subst gini_count_eq) (simp_all only: if_not_P [OF False] length_replicate)
  then show ?thesis
    by (simp only: gini_impurity_def bindE_Inl if_not_P [OF False])
next
  case True
  define A where "A = filter (low d p) xs"
  define B where "B = filter (\<lambda>i. \<not> low d p i) xs"
  have len: "length A + length B = length xs"
    unfolding A_def B_def by (rule sum_length_filter_compl)
  have val: "fdiv (fadd (fmul (fold (\<lambda>i s. fadd s (gini_term (tallies d (replicate 10 0) A) (int (length A)) i)) [0..<10] (Fin 0)) (d_of_int (int (length A))))
                   (fmul (fold (\<lambda>i s. fadd s (gini_term (tallies d (replicate 10 0) B) (int (length B)) i)) [0..<10] (Fin 0)) (d_of_int (int (length B)))))
              (d_of_int (int (length xs)))
        = (if A = [] \<or> B = [] then NaN
           else Fin (round_value
                (round_value (round_value (group_value d A * of_nat (length A)) +
                              round_value (group_value d B * of_nat (length B)))
                 / of_nat (length xs))))"
  proof (cases "A = []")
    case True
    then show ?thesis by (simp add: group_fold_NaN)
  next
    case An: False
    show ?thesis
    proof (cases "B = []")
      case True
      with An show ?thesis by (simp add: group_fold_NaN group_fold_Fin d_of_int_def)
    next
      case False
      with An len have "length xs \<noteq> 0" by (cases A) auto
      with An False show ?thesis by (simp add: group_fold_Fin d_of_int_def)
    qed
  qed
  have gc: "gini_count d p xs (replicate 10 0, 0, replicate 10 0, 0) =
      Inr (tallies d (replicate 10 0) A, int (length A), tallies d (replicate 10 0) B, int (length B))"
    unfolding A_def B_def
    by (subst gini_count_eq) (simp_all only: if_P [OF True] length_replicate add_0)
  show ?thesis
    by (simp only: gini_impurity_def gc bindE_Inr prod.case Let_def fold_gini_step fst_conv snd_conv
        val if_P [OF True] gini_value_def A_def [symmetric] B_def [symmetric])
qed

lemma gini_value_cases: "gini_value d xs p = NaN \<or> (\<exists>r. gini_value d xs p = Fin r)"
  by (simp add: gini_value_def Let_def)

subsection \<open>split_data and get_most_frequent\<close>

lemma in_bounds_iff: "in_bounds d p i \<longleftrightarrow> pixel_ok d p i \<and> label_ok d i"
  by (auto simp add: in_bounds_def pixel_ok_def label_ok_def)

lemma split_sizes_eq:
  "split_sizes d p xs (left_size, right_size) =
     (if \<forall>i\<in>set xs. pixel_ok d p i
      then Inr (left_size + length (filter (low d p) xs),
                right_size + length (filter (\<lambda>i. \<not> low d p i) xs))
      else Inl OutOfBounds)"
proof (induction xs arbitrary: left_size right_size)
  case Nil
  then show ?case by simp
next
  case (Cons i xs)
  show ?case
  proof (cases "pixel_ok d p i")
    case False
    then have "pixel_at d i p = Inl OutOfBounds" by (simp add: pixel_ok_def pixel_at_def)
    with False show ?thesis by (simp add: bindE_Inl)
  next
    case True
    then have px: "pixel_at d i p = Inr (data (images d ! i) ! p)"
      by (simp add: pixel_ok_def pixel_at_def)
    show ?thesis
    proof (cases "low d p i")
      case True
      then have "data (images d ! i) ! p < 128" by (simp add: low_def)
      with True \<open>pixel_ok d p i\<close> px show ?thesis by (simp add: bindE_Inr Cons.IH)
    next
      case False
      then have "\<not> data (images d ! i) ! p < 128" by (simp add: low_def)
      with False \<open>pixel_ok d p i\<close> px show ?thesis by (simp add: bindE_Inr Cons.IH)
    qed
  qed
qed

lemma split_fill_eq:
  "split_fill d p xs (subsets0, subsets1) =
     (if \<forall>i\<in>set xs. pixel_ok d p i
      then Inr (subsets0 @ filter (low d p) xs, subsets1 @ filter (\<lambda>i. \<not> low d p i) xs)
      else Inl OutOfBounds)"
proof (induction xs arbitrary: subsets0 subsets1)
  case Nil
  then show ?case by simp
next
  case (Cons i xs)
  show ?case
  proof (cases "pixel_ok d p i")
    case False
    then have "pixel_at d i p = Inl OutOfBounds" by (simp add: pixel_ok_def pixel_at_def)
    with False show ?thesis by (simp add: bindE_Inl)
  next
    case True
    then have px: "pixel_at d i p = Inr (data (images d ! i) ! p)"
      by (simp add: pixel_ok_def pixel_at_def)
    show ?thesis
    proof (cases "low d p i")
      case True
      then have "data (images d ! i) ! p < 128" by (simp add: low_def)
      with True \<open>pixel_ok d p i\<close> px show ?thesis by (simp add: bindE_Inr Cons.IH)
    next
      case False
      then have "\<not> data (images d ! i) ! p < 128" by (simp add: low_def)
      with False \<open>pixel_ok d p i\<close> px show ?thesis by (simp add: bindE_Inr Cons.IH)
    qed
  qed
qed

lemma split_data_eq:
  "split_data d xs p left_size right_size =
     (if \<forall>i\<in>set xs. pixel_ok d p i
      then Inr (filter (low d p) xs, filter (\<lambda>i. \<not> low d p i) xs,
                left_size + length (filter (low d p) xs),
                right_size + length (filter (\<lambda>i. \<not> low d p i) xs))
      else Inl OutOfBounds)"
  by (simp add: split_data_def split_sizes_eq split_fill_eq bindE_Inr bindE_Inl)

lemma count_labels_eq:
  "length freq = 10 \<Longrightarrow>
   count_labels d xs freq =
     (if \<forall>i\<in>set xs. label_ok d i then Inr (tallies d freq xs) else Inl OutOfBounds)"
proof (induction xs arbitrary: freq)
  case Nil
  then show ?case by (simp add: tallies_Nil)
next
  case (Cons i xs)
  show ?case
  proof (cases "label_ok d i")
    case False
    then show ?thesis
      by (auto simp add: label_ok_def label_at_def incr_def bindE_def Cons.prems)
  next
    case True
    then have "label_at d i = Inr (unat (labels d ! i))" "unat (labels d ! i) < 10"
      by (simp_all add: label_ok_def label_at_def)
    with True Cons.prems show ?thesis
      by (simp add: bindE_Inr incr_def Cons.IH tallies_Cons)
  qed
qed

lemma scan_labels_spec:
  "sorted_wrt (<) ks \<Longrightarrow> \<forall>k\<in>set ks. label < int k \<Longrightarrow>
   scan_labels f ks (label, freq) = (label', freq') \<Longrightarrow>
   freq \<le> freq' \<and> (\<forall>k\<in>set ks. f ! k \<le> freq') \<and>
   ((label', freq') = (label, freq) \<or> (\<exists>k\<in>set ks. label' = int k \<and> freq' = f ! k \<and> freq < freq')) \<and>
   (\<forall>k\<in>set ks. f ! k = freq' \<longrightarrow> label' \<le> int k)"
proof (induction ks arbitrary: label freq)
  case Nil
  then show ?case by simp
next
  case (Cons k ks)
  from Cons.prems(1) have srt: "sorted_wrt (<) ks" and gt: "\<forall>k'\<in>set ks. k < k'" by simp_all
  show ?case
  proof (cases "f ! k > freq")
    case True
    with Cons.prems(3) have run: "scan_labels f ks (int k, f ! k) = (label', freq')" by simp
    from gt have "\<forall>k'\<in>set ks. int k < int k'" by simp
    from Cons.IH [OF srt this run] True show ?thesis by auto
  next
    case False
    with Cons.prems(2,3) have run: "scan_labels f ks (label, freq) = (label', freq')"
      by (simp split: if_splits)
    from Cons.prems(2) have "\<forall>k'\<in>set ks. label < int k'" by simp
    from Cons.IH [OF srt this run] False Cons.prems(2) show ?thesis by auto
  qed
qed

lemma get_most_frequent_spec:
  assumes ok: "\<forall>i\<in>set xs. label_ok d i"
  shows "\<exists>label freq. get_most_frequent d xs = Inr (label, freq) \<and>
           0 \<le> label \<and> label < 10 \<and> freq = tally d xs (nat label) \<and>
           (\<forall>k. tally d xs k \<le> freq) \<and>
           (\<forall>k. tally d xs k = freq \<longrightarrow> label \<le> int k)"
proof -
  define f where "f = tallies d (replicate 10 0) xs"
  have fk: "f ! k = tally d xs k" if "k < 10" for k
    using that by (simp add: f_def tallies_zero_nth)
  have big: "tally d xs k = 0" if "10 \<le> k" for k
  proof -
    have "filter (\<lambda>i. unat (labels d ! i) = k) xs = []"
      using ok that by (auto simp add: filter_empty_conv label_ok_def)
    then show ?thesis by (simp add: tally_def)
  qed
  have nonneg: "0 \<le> tally d xs k" for k by (simp add: tally_def)
  obtain label freq where run: "scan_labels f [0..<10] (- 1, - 1) = (label, freq)"
    by (cases "scan_labels f [0..<10] (- 1, - 1)")
  have gmf: "get_most_frequent d xs = Inr (label, freq)"
    using ok run by (simp add: get_most_frequent_def count_labels_eq bindE_Inr f_def)
  have "sorted_wrt (<) [0..<10::nat]" by (simp only: sorted_wrt_upt)
  moreover have "\<forall>k\<in>set [0..<10::nat]. (- 1::int) < int k" by simp
  ultimately have spec: "- 1 \<le> freq \<and> (\<forall>k\<in>set [0..<10]. f ! k \<le> freq) \<and>
     ((label, freq) = (- 1, - 1) \<or> (\<exists>k\<in>set [0..<10]. label = int k \<and> freq = f ! k \<and> - 1 < freq)) \<and>
     (\<forall>k\<in>set [0..<10]. f ! k = freq \<longrightarrow> label \<le> int k)"
    using run by (rule scan_labels_spec)
  then have le: "f ! k \<le> freq" if "k < 10" for k using that by simp
  from le [of 0] fk [of 0] nonneg [of 0] have f0: "0 \<le> freq" by simp
  with spec obtain k where k: "k < 10" "label = int k" "freq = f ! k" by auto
  have all_le: "tally d xs j \<le> freq" for j
  proof (cases "j < 10")
    case True
    with le [of j] fk [of j] show ?thesis by simp
  next
    case False
    with big [of j] f0 show ?thesis by simp
  qed
  have least: "label \<le> int j" if "tally d xs j = freq" for j
  proof (cases "j < 10")
    case True
    with spec that fk [of j] show ?thesis by simp
  next
    case False
    with k show ?thesis by simp
  qed
  from gmf k fk [of k] all_le least show ?thesis by auto
qed

lemma get_most_frequent_eval:
  assumes "\<forall>i\<in>set xs. label_ok d i"
  shows "get_most_frequent d xs =
           Inr (scan_labels (map (tally d xs) [0..<10]) [0..<10] (- 1, - 1))"
proof -
  have "tallies d (replicate 10 0) xs = map (tally d xs) [0..<10]"
    unfolding tallies_def by (rule map_cong) simp_all
  with assms show ?thesis
    by (simp add: get_most_frequent_def count_labels_eq bindE_Inr del: upt_Suc)
qed

lemma get_most_frequent_Inr:
  assumes "get_most_frequent d xs = Inr (label, freq)"
  shows "(\<forall>i\<in>set xs. label_ok d i) \<and> 0 \<le> label \<and> label < 10 \<and>
         freq = tally d xs (nat label) \<and> 0 \<le> freq \<and> freq \<le> int (length xs)"
proof -
  from assms have ok: "\<forall>i\<in>set xs. label_ok d i"
    by (auto simp add: get_most_frequent_def count_labels_eq bindE_eq_Inr split: if_splits)
  from get_most_frequent_spec [OF ok] assms
  have "0 \<le> label \<and> label < 10 \<and> freq = tally d xs (nat label)" by auto
  with ok show ?thesis by (simp add: tally_def)
qed

subsection \<open>find_best_split\<close>

lemma best_split_loop_Some:
  "best_split_loop d xs ps (m, b) = Inr (m', Some j) \<Longrightarrow>
   (\<And>j0. b = Some j0 \<Longrightarrow> gini_impurity d xs j0 = Inr m \<and> m \<noteq> NaN) \<Longrightarrow>
   gini_impurity d xs j = Inr m' \<and> m' \<noteq> NaN"
proof (induction ps arbitrary: m b)
  case Nil
  then show ?case by simp
next
  case (Cons p ps)
  from Cons.prems(1) obtain g where g: "gini_impurity d xs p = Inr g"
    and rest: "(if flt g m \<and> fne g NAN then best_split_loop d xs ps (g, Some p)
       else if feq g m \<and> fne g NAN
       then (case b of None \<Rightarrow> Inl UninitialisedRead
             | Some b0 \<Rightarrow> if p < b0 then best_split_loop d xs ps (g, Some p)
                 else best_split_loop d xs ps (m, b))
       else best_split_loop d xs ps (m, b)) = Inr (m', Some j)"
    by (auto simp add: bindE_eq_Inr)
  show ?case
  proof (cases "flt g m")
    case True
    with rest have "best_split_loop d xs ps (g, Some p) = Inr (m', Some j)"
      by (simp add: fne_NAN)
    moreover from True have "g \<noteq> NaN" by (rule flt_not_NaN)
    ultimately show ?thesis using g by (intro Cons.IH [of g "Some p"]) simp_all
  next
    case nlt: False
    show ?thesis
    proof (cases "feq g m")
      case False
      with nlt rest have "best_split_loop d xs ps (m, b) = Inr (m', Some j)" by simp
      then show ?thesis using Cons.prems(2) by (intro Cons.IH [of m b]) simp_all
    next
      case True
      then have gm: "g = m" "g \<noteq> NaN" by (auto simp add: feq_eq)
      from True nlt rest obtain b0 where b0: "b = Some b0"
        by (cases b) (simp_all add: fne_NAN)
      show ?thesis
      proof (cases "p < b0")
        case True
        with \<open>feq g m\<close> nlt rest b0 have "best_split_loop d xs ps (g, Some p) = Inr (m', Some j)"
          by (simp add: fne_NAN)
        then show ?thesis using g gm by (intro Cons.IH [of g "Some p"]) simp_all
      next
        case False
        with \<open>feq g m\<close> nlt rest b0 have "best_split_loop d xs ps (m, b) = Inr (m', Some j)"
          by (simp add: fne_NAN)
        then show ?thesis using Cons.prems(2) by (intro Cons.IH [of m b]) simp_all
      qed
    qed
  qed
qed

lemma find_best_split_defined:
  assumes "find_best_split d xs = Inr j"
  shows "\<exists>g. gini_impurity d xs j = Inr g \<and> g \<noteq> NaN"
proof -
  from assms obtain m where "best_split_loop d xs [0..<784] (INFINITY, None) = Inr (m, Some j)"
    by (auto simp add: find_best_split_def bindE_eq_Inr split: option.splits)
  then have "gini_impurity d xs j = Inr m \<and> m \<noteq> NaN"
    by (rule best_split_loop_Some) simp
  then show ?thesis by blast
qed

lemma find_best_split_separates:
  assumes "find_best_split d xs = Inr j"
  shows "(\<forall>i\<in>set xs. in_bounds d j i) \<and> filter (low d j) xs \<noteq> [] \<and>
         filter (\<lambda>i. \<not> low d j i) xs \<noteq> []"
proof -
  from find_best_split_defined [OF assms] obtain g
    where g: "gini_impurity d xs j = Inr g" "g \<noteq> NaN" by blast
  from g(1) have ib: "\<forall>i\<in>set xs. in_bounds d j i"
    by (simp add: gini_impurity_eq split: if_splits)
  with g have "gini_value d xs j \<noteq> NaN" by (simp add: gini_impurity_eq)
  then have "filter (low d j) xs \<noteq> [] \<and> filter (\<lambda>i. \<not> low d j i) xs \<noteq> []"
    by (auto simp add: gini_value_def Let_def split: if_splits)
  with ib show ?thesis by blast
qed

lemma best_split_loop_total:
  assumes "\<forall>p\<in>set ps. \<forall>i\<in>set xs. in_bounds d p i"
    and "b = None \<longrightarrow> m = PInf"
  shows "\<exists>m' b'. best_split_loop d xs ps (m, b) = Inr (m', b') \<and>
           (b' = None \<longrightarrow> b = None \<and> m' = PInf \<and> (\<forall>p\<in>set ps. gini_value d xs p = NaN)) \<and>
           (\<forall>j. b' = Some j \<longrightarrow> j \<in> set ps \<or> b = Some j)"
  using assms
proof (induction ps arbitrary: m b)
  case Nil
  then show ?case by simp
next
  case (Cons p ps)
  define g where "g = gini_value d xs p"
  from Cons.prems(1) have gi: "gini_impurity d xs p = Inr g"
    and ib: "\<forall>p\<in>set ps. \<forall>i\<in>set xs. in_bounds d p i"
    by (simp_all add: gini_impurity_eq g_def)
  have step: "best_split_loop d xs (p # ps) (m, b) =
      (if flt g m then best_split_loop d xs ps (g, Some p)
       else if feq g m
       then (case b of None \<Rightarrow> Inl UninitialisedRead
             | Some b0 \<Rightarrow> if p < b0 then best_split_loop d xs ps (g, Some p)
                 else best_split_loop d xs ps (m, b))
       else best_split_loop d xs ps (m, b))"
    by (simp add: gi bindE_Inr fne_NAN)
  from gini_value_cases [of d xs p] have gc: "g = NaN \<or> (\<exists>r. g = Fin r)" by (simp add: g_def)
  show ?case
  proof (cases "flt g m")
    case True
    from Cons.IH [of "Some p" g, OF ib] obtain m' b'
      where "best_split_loop d xs ps (g, Some p) = Inr (m', b')" "b' \<noteq> None"
        "\<forall>j. b' = Some j \<longrightarrow> j \<in> set ps \<or> p = j"
      by auto
    with True step show ?thesis by auto
  next
    case nlt: False
    show ?thesis
    proof (cases b)
      case None
      with Cons.prems(2) have m: "m = PInf" by simp
      with nlt gc have gN: "g = NaN" by auto
      then have "\<not> feq g m" by simp
      with nlt step have "best_split_loop d xs (p # ps) (m, b) = best_split_loop d xs ps (m, b)"
        by simp
      with Cons.IH [of b m, OF ib Cons.prems(2)] gN show ?thesis
        by (auto simp add: g_def)
    next
      case (Some b0)
      from Cons.IH [of "Some p" g, OF ib] obtain m1 b1
        where r1: "best_split_loop d xs ps (g, Some p) = Inr (m1, b1)" "b1 \<noteq> None"
          "\<forall>j. b1 = Some j \<longrightarrow> j \<in> set ps \<or> p = j"
        by auto
      from Cons.IH [of b m, OF ib] Some obtain m2 b2
        where r2: "best_split_loop d xs ps (m, b) = Inr (m2, b2)" "b2 \<noteq> None"
          "\<forall>j. b2 = Some j \<longrightarrow> j \<in> set ps \<or> b0 = j"
        by auto
      from step nlt Some r1 r2 show ?thesis
        by (cases "feq g m"; cases "p < b0") auto
    qed
  qed
qed

lemma find_best_split_exists:
  assumes ib: "\<forall>p<784. \<forall>i\<in>set xs. in_bounds d p i"
    and def: "p < 784" "gini_value d xs p \<noteq> NaN"
  shows "\<exists>j<784. find_best_split d xs = Inr j \<and> gini_value d xs j \<noteq> NaN"
proof -
  from ib have "\<forall>p\<in>set [0..<784]. \<forall>i\<in>set xs. in_bounds d p i" by simp
  from best_split_loop_total [OF this, of None PInf] obtain m' b'
    where run: "best_split_loop d xs [0..<784] (PInf, None) = Inr (m', b')"
      and none: "b' = None \<longrightarrow> (\<forall>p\<in>set [0..<784]. gini_value d xs p = NaN)"
      and some: "\<forall>j. b' = Some j \<longrightarrow> j \<in> set [0..<784]"
    by auto
  from none def obtain j where j: "b' = Some j" by (cases b') auto
  with some have j784: "j < 784" by simp
  from run j have fb: "find_best_split d xs = Inr j"
    by (simp add: find_best_split_def INFINITY_def bindE_Inr)
  from find_best_split_defined [OF fb] ib j784 have "gini_value d xs j \<noteq> NaN"
    by (auto simp add: gini_impurity_eq split: if_splits)
  with fb j784 show ?thesis by blast
qed

lemma find_best_split_none:
  assumes ib: "\<forall>p<784. \<forall>i\<in>set xs. in_bounds d p i"
    and undef: "\<forall>p<784. gini_value d xs p = NaN"
  shows "find_best_split d xs = Inl UninitialisedRead"
proof -
  from ib have "\<forall>p\<in>set [0..<784]. \<forall>i\<in>set xs. in_bounds d p i" by simp
  from best_split_loop_total [OF this, of None PInf] obtain m' b'
    where run: "best_split_loop d xs [0..<784] (PInf, None) = Inr (m', b')"
      and some: "\<forall>j. b' = Some j \<longrightarrow> j \<in> set [0..<784]"
    by auto
  have "b' = None"
  proof (cases b')
    case (Some j)
    with run have "find_best_split d xs = Inr j"
      by (simp add: find_best_split_def INFINITY_def bindE_Inr)
    from find_best_split_defined [OF this] some Some ib undef show ?thesis
      by (auto simp add: gini_impurity_eq split: if_splits)
  qed simp
  with run show ?thesis
    by (simp add: find_best_split_def INFINITY_def bindE_Inr)
qed

lemma find_best_split_bound: "find_best_split d xs = Inr j \<Longrightarrow> j < 784"
proof -
  assume fb: "find_best_split d xs = Inr j"
  then obtain m where run: "best_split_loop d xs [0..<784] (INFINITY, None) = Inr (m, Some j)"
    by (auto simp add: find_best_split_def bindE_eq_Inr split: option.splits)
  have "best_split_loop d xs ps (m0, b0) = Inr (m1, Some j1) \<Longrightarrow> j1 \<in> set ps \<or> b0 = Some j1"
    for ps m0 b0 m1 j1
  proof (induction ps arbitrary: m0 b0)
    case Nil
    then show ?case by simp
  next
    case (Cons p ps)
    from Cons.prems obtain g where
      "(if flt g m0 \<and> fne g NAN then best_split_loop d xs ps (g, Some p)
       else if feq g m0 \<and> fne g NAN
       then (case b0 of None \<Rightarrow> Inl UninitialisedRead
             | Some b \<Rightarrow> if p < b then best_split_loop d xs ps (g, Some p)
                 else best_split_loop d xs ps (m0, b0))
       else best_split_loop d xs ps (m0, b0)) = Inr (m1, Some j1)"
      by (auto simp add: bindE_eq_Inr)
    then have "best_split_loop d xs ps (g, Some p) = Inr (m1, Some j1) \<or>
        best_split_loop d xs ps (m0, b0) = Inr (m1, Some j1)"
      by (auto split: if_splits option.splits)
    with Cons.IH [of g "Some p"] Cons.IH [of m0 b0] show ?case by auto
  qed
  from this [OF run] show ?thesis by simp
qed

lemma best_split_loop_least:
  assumes "\<forall>p\<in>set ps. \<forall>i\<in>set xs. in_bounds d p i"
    and "sorted_wrt (<) ps"
    and "(b = None \<and> m = PInf) \<or> (\<exists>j0 r0. b = Some j0 \<and> m = Fin r0 \<and> (\<forall>p\<in>set ps. j0 < p))"
  shows "\<exists>m' b'. best_split_loop d xs ps (m, b) = Inr (m', b') \<and>
           ((b' = None \<and> m' = PInf) \<or> (\<exists>j r. b' = Some j \<and> m' = Fin r)) \<and>
           (\<forall>p\<in>set ps. \<forall>r. gini_value d xs p = Fin r \<longrightarrow> (\<exists>r'. m' = Fin r' \<and> r' \<le> r)) \<and>
           (\<forall>p\<in>set ps. \<forall>j. b' = Some j \<longrightarrow> gini_value d xs p = m' \<longrightarrow> j \<le> p) \<and>
           (\<forall>r. m = Fin r \<longrightarrow> (\<exists>r'. m' = Fin r' \<and> r' \<le> r)) \<and>
           (m' = m \<longrightarrow> b' = b)"
  using assms
proof (induction ps arbitrary: m b)
  case Nil
  then show ?case by auto
next
  case (Cons p ps)
  define g where "g = gini_value d xs p"
  from Cons.prems(1) have gi: "gini_impurity d xs p = Inr g"
    and ib: "\<forall>p\<in>set ps. \<forall>i\<in>set xs. in_bounds d p i"
    by (simp_all add: gini_impurity_eq g_def)
  from Cons.prems(2) have srt: "sorted_wrt (<) ps" and gt: "\<forall>q\<in>set ps. p < q" by simp_all
  have step: "best_split_loop d xs (p # ps) (m, b) =
      (if flt g m then best_split_loop d xs ps (g, Some p)
       else if feq g m
       then (case b of None \<Rightarrow> Inl UninitialisedRead
             | Some b0 \<Rightarrow> if p < b0 then best_split_loop d xs ps (g, Some p)
                 else best_split_loop d xs ps (m, b))
       else best_split_loop d xs ps (m, b))"
    by (simp add: gi bindE_Inr fne_NAN)
  from Cons.prems(3) have inv': "(b = None \<and> m = PInf) \<or>
      (\<exists>j0 r0. b = Some j0 \<and> m = Fin r0 \<and> (\<forall>p\<in>set ps. j0 < p))"
    by auto
  from Cons.prems(3) have j0p: "\<And>j0. b = Some j0 \<Longrightarrow> j0 < p" by auto
  from gini_value_cases [of d xs p] have gc: "g = NaN \<or> (\<exists>r. g = Fin r)" by (simp add: g_def)
  show ?case
  proof (cases "flt g m")
    case True
    then obtain r where r: "g = Fin r" using gc by (auto dest: flt_not_NaN)
    from gt have "(Some p = None \<and> g = PInf) \<or>
        (\<exists>j0 r0. Some p = Some j0 \<and> g = Fin r0 \<and> (\<forall>q\<in>set ps. j0 < q))"
      by (simp add: r)
    from Cons.IH [OF ib srt this] obtain m' b' where
      run: "best_split_loop d xs ps (g, Some p) = Inr (m', b')"
      and shape: "(b' = None \<and> m' = PInf) \<or> (\<exists>j r. b' = Some j \<and> m' = Fin r)"
      and mn: "\<forall>q\<in>set ps. \<forall>r. gini_value d xs q = Fin r \<longrightarrow> (\<exists>r'. m' = Fin r' \<and> r' \<le> r)"
      and lst: "\<forall>q\<in>set ps. \<forall>j. b' = Some j \<longrightarrow> gini_value d xs q = m' \<longrightarrow> j \<le> q"
      and mono: "\<forall>r. g = Fin r \<longrightarrow> (\<exists>r'. m' = Fin r' \<and> r' \<le> r)"
      and keep: "m' = g \<longrightarrow> b' = Some p"
      by (elim exE conjE) (rule that; assumption)
    from mono r obtain r' where r': "m' = Fin r'" "r' \<le> r" by blast
    from True step run have res: "best_split_loop d xs (p # ps) (m, b) = Inr (m', b')" by simp
    have "\<forall>q\<in>set (p # ps). \<forall>r. gini_value d xs q = Fin r \<longrightarrow> (\<exists>r'. m' = Fin r' \<and> r' \<le> r)"
      using mn r r' by (auto simp add: g_def)
    moreover have "\<forall>q\<in>set (p # ps). \<forall>j. b' = Some j \<longrightarrow> gini_value d xs q = m' \<longrightarrow> j \<le> q"
      using lst keep by (auto simp add: g_def)
    moreover have "\<forall>r0. m = Fin r0 \<longrightarrow> (\<exists>r'. m' = Fin r' \<and> r' \<le> r0)"
      using True r r' by auto
    moreover have "m' = m \<longrightarrow> b' = b"
      using True r r' by auto
    ultimately show ?thesis using res shape by (intro exI conjI) assumption+
  next
    case nlt: False
    have same: "best_split_loop d xs (p # ps) (m, b) = best_split_loop d xs ps (m, b)"
    proof (cases "feq g m")
      case False
      with nlt step show ?thesis by simp
    next
      case True
      then have "g = m" "g \<noteq> NaN" by (auto simp add: feq_eq)
      with gc inv' obtain j0 where "b = Some j0" by auto
      with j0p [of j0] True nlt step show ?thesis by simp
    qed
    from Cons.IH [OF ib srt inv'] obtain m' b' where
      run: "best_split_loop d xs ps (m, b) = Inr (m', b')"
      and shape: "(b' = None \<and> m' = PInf) \<or> (\<exists>j r. b' = Some j \<and> m' = Fin r)"
      and mn: "\<forall>q\<in>set ps. \<forall>r. gini_value d xs q = Fin r \<longrightarrow> (\<exists>r'. m' = Fin r' \<and> r' \<le> r)"
      and lst: "\<forall>q\<in>set ps. \<forall>j. b' = Some j \<longrightarrow> gini_value d xs q = m' \<longrightarrow> j \<le> q"
      and mono: "\<forall>r. m = Fin r \<longrightarrow> (\<exists>r'. m' = Fin r' \<and> r' \<le> r)"
      and keep: "m' = m \<longrightarrow> b' = b"
      by (elim exE conjE) (rule that; assumption)
    from same run have res: "best_split_loop d xs (p # ps) (m, b) = Inr (m', b')" by simp
    have hd_min: "\<exists>r'. m' = Fin r' \<and> r' \<le> r" if "g = Fin r" for r
    proof -
      from that nlt inv' obtain r0 where "m = Fin r0" "r0 \<le> r" by auto
      with mono show ?thesis by force
    qed
    have hd_lst: "j \<le> p" if "b' = Some j" "g = m'" for j
    proof -
      from that shape obtain r where r: "g = Fin r" "m' = Fin r" by auto
      from r(1) nlt inv' obtain r0 where r0: "m = Fin r0" "r0 \<le> r" by auto
      with mono r(2) have "r \<le> r0" by auto
      with r0 r have "m' = m" by simp
      with keep that(1) have "b = Some j" by simp
      from j0p [OF this] show ?thesis by simp
    qed
    have "\<forall>q\<in>set (p # ps). \<forall>r. gini_value d xs q = Fin r \<longrightarrow> (\<exists>r'. m' = Fin r' \<and> r' \<le> r)"
      using mn hd_min by (auto simp add: g_def)
    moreover have "\<forall>q\<in>set (p # ps). \<forall>j. b' = Some j \<longrightarrow> gini_value d xs q = m' \<longrightarrow> j \<le> q"
      using lst hd_lst by (auto simp add: g_def)
    ultimately show ?thesis using res shape mono keep by (intro exI conjI) assumption+
  qed
qed

lemma find_best_split_least_min:
  assumes ib: "\<forall>p<784. \<forall>i\<in>set xs. in_bounds d p i"
    and fb: "find_best_split d xs = Inr j"
  shows "j < 784 \<and>
         (\<exists>r. gini_value d xs j = Fin r \<and>
            (\<forall>p<784. \<forall>r'. gini_value d xs p = Fin r' \<longrightarrow> r \<le> r' \<and> (r' = r \<longrightarrow> j \<le> p)))"
proof -
  from ib have ib': "\<forall>p\<in>set [0..<784]. \<forall>i\<in>set xs. in_bounds d p i" by simp
  have srt: "sorted_wrt (<) [0..<784::nat]" by (simp only: sorted_wrt_upt)
  have inv: "((None :: nat option) = None \<and> PInf = PInf) \<or>
      (\<exists>j0 r0. (None :: nat option) = Some j0 \<and> PInf = Fin r0 \<and> (\<forall>p\<in>set [0..<784]. j0 < p))"
    by simp
  from best_split_loop_least [OF ib' srt inv] obtain m' b' where
    run: "best_split_loop d xs [0..<784] (PInf, None) = Inr (m', b')"
    and mn: "\<forall>p\<in>set [0..<784]. \<forall>r. gini_value d xs p = Fin r \<longrightarrow> (\<exists>r'. m' = Fin r' \<and> r' \<le> r)"
    and lst: "\<forall>p\<in>set [0..<784]. \<forall>j. b' = Some j \<longrightarrow> gini_value d xs p = m' \<longrightarrow> j \<le> p"
    by (elim exE conjE) (rule that; assumption)
  from fb run have b': "b' = Some j"
    by (auto simp add: find_best_split_def INFINITY_def bindE_Inr split: option.splits)
  from find_best_split_bound [OF fb] have j: "j < 784" .
  from run b' have "gini_impurity d xs j = Inr m' \<and> m' \<noteq> NaN"
    by (intro best_split_loop_Some [of d xs "[0..<784]" PInf None m' j]) simp_all
  with ib j have gj: "gini_value d xs j = m'" "m' \<noteq> NaN"
    by (simp_all add: gini_impurity_eq)
  with gini_value_cases [of d xs j] obtain r where r: "m' = Fin r" by auto
  have "r \<le> r' \<and> (r' = r \<longrightarrow> j \<le> p)" if "p < 784" "gini_value d xs p = Fin r'" for p r'
  proof -
    from that mn r have "r \<le> r'" by auto
    moreover have "j \<le> p" if "r' = r"
      using lst b' r \<open>p < 784\<close> \<open>gini_value d xs p = Fin r'\<close> that by auto
    ultimately show ?thesis by blast
  qed
  with j gj r show ?thesis by blast
qed

section \<open>build_subtree and build_dec_tree\<close>

text \<open>The recursion of \<^verbatim>\<open>build_subtree\<close> is well founded: a pixel that
  \<^verbatim>\<open>find_best_split\<close> returns has a defined impurity, so both sides of the partition
  are non-empty and strictly smaller than the subset. The recursive calls receive
  \<^verbatim>\<open>(*left_size, subsets[0])\<close> and \<^verbatim>\<open>(*right_size, subsets[1])\<close>.\<close>

function build_subtree :: "Dataset \<Rightarrow> nat list \<Rightarrow> fault + DTNode" where
  "build_subtree d indices =
     bindE (get_most_frequent d indices) (\<lambda>(label, freq).
       if fge (fdiv (d_of_int freq) (d_of_int (int (length indices)))) THRESHOLD_RATIO
       then Inr (DTNode (- 1) label None None)
       else bindE (find_best_split d indices) (\<lambda>pixel_split.
              bindE (split_data d indices pixel_split 0 0)
                (\<lambda>(subsets0, subsets1, left_size, right_size).
                   bindE (build_subtree d (take left_size subsets0)) (\<lambda>l.
                     bindE (build_subtree d (take right_size subsets1)) (\<lambda>r.
                       Inr (DTNode (int pixel_split) (- 1) (Some l) (Some r)))))))"
  by pat_completeness auto
termination
proof (relation "measure (\<lambda>(d, indices). length indices)")
  show "wf (measure (\<lambda>(d, indices). length indices))" by simp
next
  fix d indices x label freq pixel_split y subsets0 z subsets1 zz left_size right_size
  assume fb: "find_best_split d indices = Inr pixel_split"
    and sd: "split_data d indices pixel_split 0 0 = Inr y"
    and y: "(subsets0, z) = y" "(subsets1, zz) = z" "(left_size, right_size) = zz"
  from find_best_split_separates [OF fb]
  have ok: "\<forall>i\<in>set indices. pixel_ok d pixel_split i"
    and ne: "filter (low d pixel_split) indices \<noteq> []"
      "filter (\<lambda>i. \<not> low d pixel_split i) indices \<noteq> []"
    by (simp_all add: in_bounds_iff)
  from sd y ok have s0: "subsets0 = filter (low d pixel_split) indices"
    and s1: "subsets1 = filter (\<lambda>i. \<not> low d pixel_split i) indices"
    by (auto simp add: split_data_eq)
  have "length subsets0 + length subsets1 = length indices"
    unfolding s0 s1 by (rule sum_length_filter_compl)
  moreover from ne s0 s1 have "0 < length subsets0" "0 < length subsets1" by simp_all
  ultimately have "length subsets0 < length indices" "length subsets1 < length indices"
    by linarith+
  then show "((d, take left_size subsets0), d, indices) \<in> measure (\<lambda>(d, indices). length indices)"
    by simp
  fix l
  from \<open>length subsets1 < length indices\<close>
  show "((d, take right_size subsets1), d, indices) \<in> measure (\<lambda>(d, indices). length indices)"
    by simp
qed

declare build_subtree.simps [simp del]

text \<open>\<^verbatim>\<open>int indices[M]\<close> is a variable-length array: its size must be positive.\<close>

definition build_dec_tree :: "Dataset \<Rightarrow> fault + DTNode" where
  "build_dec_tree d =
     (let M = num_items d
      in if M \<le> 0 then Inl BadArraySize else build_subtree d [0..<nat M])"

text \<open>The threshold, and the test of \<^verbatim>\<open>build_subtree\<close> on some ratios.\<close>

lemma threshold_value: "round_value (95 / 100) = 8556839292003942 / 9007199254740992"
  by code_simp

lemma threshold_reduced: "round_value (19 / 20) = 4278419646001971 / 4503599627370496"
  using threshold_value by simp

lemma round_value_half: "round_value (1 / 2) = 1 / 2"
  using round_value_exact [of 1 "- 1"] by (simp add: power_int_minus_divide)

lemma ratio_whole:
  "0 < n \<Longrightarrow> fge (fdiv (d_of_int n) (d_of_int n)) THRESHOLD_RATIO"
  by (simp add: fge_def d_of_int_def THRESHOLD_RATIO_def threshold_reduced round_value_1)

lemma ratio_half:
  "\<not> fge (fdiv (d_of_int 1) (d_of_int 2)) THRESHOLD_RATIO"
  "\<not> fge (fdiv (d_of_int 2) (d_of_int 4)) THRESHOLD_RATIO"
  by (simp_all add: fge_def d_of_int_def THRESHOLD_RATIO_def threshold_reduced round_value_half)

lemma ratio_none: "\<not> fge (fdiv (d_of_int 0) (d_of_int 0)) THRESHOLD_RATIO"
  by (simp add: fge_def d_of_int_def THRESHOLD_RATIO_def)

text \<open>For a subset whose size fits an \<^verbatim>\<open>int\<close>, the test on the rounded quotient decides
  as the comparison of the exact ratio with 95/100: a ratio below 95/100 is below it
  by at least \<open>1 / (20 M)\<close>, far more than the two roundings can bridge.\<close>

lemma ratio_test:
  assumes "0 \<le> freq" and "freq \<le> int M" and "M < 2 ^ 31"
  shows "fge (fdiv (d_of_int freq) (d_of_int (int M))) THRESHOLD_RATIO \<longleftrightarrow>
         M \<noteq> 0 \<and> (95 / 100 :: rat) \<le> of_int freq / of_nat M"
proof (cases "M = 0")
  case True
  with assms have "freq = 0" by simp
  with True show ?thesis by (simp add: ratio_none)
next
  case False
  define x :: rat where "x = of_int freq / of_nat M"
  have M: "(0::rat) < of_nat M" using False by simp
  have x0: "0 \<le> x" using assms(1) M by (simp add: x_def)
  have "(of_int freq :: rat) \<le> of_int (int M)" using assms(2) by (simp only: of_int_le_iff)
  then have x1: "x \<le> 1" using M by (simp add: x_def divide_le_eq)
  have test: "fge (fdiv (d_of_int freq) (d_of_int (int M))) THRESHOLD_RATIO \<longleftrightarrow>
      round_value (95 / 100) \<le> round_value x"
    using False by (auto simp add: fge_def d_of_int_def THRESHOLD_RATIO_def x_def feq_eq)
  show ?thesis
  proof (cases "(95 / 100 :: rat) \<le> x")
    case True
    then have "round_value (95 / 100) \<le> round_value x" by (intro round_value_mono) simp_all
    with True False test show ?thesis by (simp add: x_def)
  next
    case low: False
    have "20 * freq < 19 * int M"
    proof -
      from low have "of_int freq / of_nat M < (95 / 100 :: rat)" by (simp add: x_def)
      then have "(of_int freq :: rat) < 95 / 100 * of_nat M" using M by (simp add: divide_less_eq)
      then have "(of_int (20 * freq) :: rat) < of_int (19 * int M)" by simp
      then show ?thesis by (simp only: of_int_less_iff)
    qed
    then have "20 * freq + 1 \<le> 19 * int M" by simp
    then have "(of_int (20 * freq + 1) :: rat) \<le> of_int (19 * int M)" by (simp only: of_int_le_iff)
    then have "20 * (of_int freq :: rat) + 1 \<le> 19 * of_nat M" by simp
    then have "(of_int freq :: rat) \<le> (19 / 20 - 1 / (20 * of_nat M)) * of_nat M"
      using M by (simp add: algebra_simps)
    then have gap: "x \<le> 19 / 20 - 1 / (20 * of_nat M)"
      using M by (simp add: x_def divide_le_eq)
    have "(of_nat M :: rat) \<le> of_nat (2 ^ 31)" using assms(3) by (simp only: of_nat_le_iff)
    then have "(1::rat) / (20 * 2 ^ 31) \<le> 1 / (20 * of_nat M)"
      using M by (intro divide_left_mono) simp_all
    with gap have far: "x \<le> 19 / 20 - 1 / (20 * 2 ^ 31)" by linarith
    from round_value_err_1 [OF x0 x1] have "round_value x \<le> x + kappa" by linarith
    also have "\<dots> \<le> 19 / 20 - 1 / (20 * 2 ^ 31) + kappa" using far by simp
    also have "\<dots> < 8556839292003942 / 9007199254740992" by (simp add: kappa_def)
    finally have "\<not> round_value (95 / 100) \<le> round_value x" by (simp add: threshold_reduced)
    with low test show ?thesis by (simp add: x_def)
  qed
qed

lemma build_subtree_unfold:
  assumes gmf: "get_most_frequent d xs = Inr (label, freq)"
  shows "build_subtree d xs =
     (if fge (fdiv (d_of_int freq) (d_of_int (int (length xs)))) THRESHOLD_RATIO
      then Inr (DTNode (- 1) label None None)
      else bindE (find_best_split d xs) (\<lambda>p.
             bindE (build_subtree d (filter (low d p) xs)) (\<lambda>l.
               bindE (build_subtree d (filter (\<lambda>i. \<not> low d p i) xs)) (\<lambda>r.
                 Inr (DTNode (int p) (- 1) (Some l) (Some r))))))"
proof -
  have split: "bindE (split_data d xs p 0 0) (\<lambda>(subsets0, subsets1, left_size, right_size).
                   bindE (build_subtree d (take left_size subsets0)) (\<lambda>l.
                     bindE (build_subtree d (take right_size subsets1)) (\<lambda>r.
                       Inr (DTNode (int p) (- 1) (Some l) (Some r)))))
      = bindE (build_subtree d (filter (low d p) xs)) (\<lambda>l.
               bindE (build_subtree d (filter (\<lambda>i. \<not> low d p i) xs)) (\<lambda>r.
                 Inr (DTNode (int p) (- 1) (Some l) (Some r))))"
    if "find_best_split d xs = Inr p" for p
  proof -
    from find_best_split_separates [OF that] have "\<forall>i\<in>set xs. pixel_ok d p i"
      by (simp add: in_bounds_iff)
    then show ?thesis by (simp add: split_data_eq bindE_Inr)
  qed
  have "bindE (find_best_split d xs) (\<lambda>p.
          bindE (split_data d xs p 0 0) (\<lambda>(subsets0, subsets1, left_size, right_size).
                   bindE (build_subtree d (take left_size subsets0)) (\<lambda>l.
                     bindE (build_subtree d (take right_size subsets1)) (\<lambda>r.
                       Inr (DTNode (int p) (- 1) (Some l) (Some r))))))
      = bindE (find_best_split d xs) (\<lambda>p.
             bindE (build_subtree d (filter (low d p) xs)) (\<lambda>l.
               bindE (build_subtree d (filter (\<lambda>i. \<not> low d p i) xs)) (\<lambda>r.
                 Inr (DTNode (int p) (- 1) (Some l) (Some r)))))"
    by (rule bindE_cong [OF refl]) (rule split)
  then show ?thesis
    by (subst build_subtree.simps)
      (simp only: gmf bindE_Inr prod.case)
qed

lemma ratio_nonempty:
  assumes "get_most_frequent d xs = Inr (label, freq)"
    and "fge (fdiv (d_of_int freq) (d_of_int (int (length xs)))) THRESHOLD_RATIO"
  shows "xs \<noteq> []"
proof
  assume "xs = []"
  with get_most_frequent_Inr [OF assms(1)] have "freq = 0" by simp
  with assms(2) \<open>xs = []\<close> show False by (simp add: ratio_none)
qed

lemma build_subtree_cases:
  assumes "build_subtree d xs = Inr n"
  obtains (leaf) label freq where
      "get_most_frequent d xs = Inr (label, freq)" "xs \<noteq> []"
      "fge (fdiv (d_of_int freq) (d_of_int (int (length xs)))) THRESHOLD_RATIO"
      "n = DTNode (- 1) label None None" "0 \<le> label" "label < 10"
  | (split) label freq p lt rt where
      "get_most_frequent d xs = Inr (label, freq)"
      "\<not> fge (fdiv (d_of_int freq) (d_of_int (int (length xs)))) THRESHOLD_RATIO"
      "find_best_split d xs = Inr p"
      "build_subtree d (filter (low d p) xs) = Inr lt"
      "build_subtree d (filter (\<lambda>i. \<not> low d p i) xs) = Inr rt"
      "n = DTNode (int p) (- 1) (Some lt) (Some rt)"
proof -
  from assms obtain label freq where gmf: "get_most_frequent d xs = Inr (label, freq)"
    by (subst (asm) build_subtree.simps) (auto simp add: bindE_eq_Inr)
  note props = get_most_frequent_Inr [OF gmf]
  note unf = build_subtree_unfold [OF gmf]
  show thesis
  proof (cases "fge (fdiv (d_of_int freq) (d_of_int (int (length xs)))) THRESHOLD_RATIO")
    case True
    with assms unf have "n = DTNode (- 1) label None None" by simp
    with True gmf props ratio_nonempty [OF gmf True] show thesis
      by (intro leaf [of label freq]) simp_all
  next
    case False
    with assms unf obtain p lt rt where "find_best_split d xs = Inr p"
      "build_subtree d (filter (low d p) xs) = Inr lt"
      "build_subtree d (filter (\<lambda>i. \<not> low d p i) xs) = Inr rt"
      "n = DTNode (int p) (- 1) (Some lt) (Some rt)"
      by (auto simp add: bindE_eq_Inr)
    with False gmf show thesis by (intro split [of label freq p lt rt]) simp_all
  qed
qed

lemma build_subtree_leaf:
  assumes "get_most_frequent d xs = Inr (label, freq)"
    and "fge (fdiv (d_of_int freq) (d_of_int (int (length xs)))) THRESHOLD_RATIO"
  shows "build_subtree d xs = Inr (DTNode (- 1) label None None)"
  using build_subtree_unfold [OF assms(1)] assms(2) by simp

lemma build_subtree_split:
  assumes "get_most_frequent d xs = Inr (label, freq)"
    and "\<not> fge (fdiv (d_of_int freq) (d_of_int (int (length xs)))) THRESHOLD_RATIO"
    and "find_best_split d xs = Inr p"
    and "build_subtree d (filter (low d p) xs) = Inr lt"
    and "build_subtree d (filter (\<lambda>i. \<not> low d p i) xs) = Inr rt"
  shows "build_subtree d xs = Inr (DTNode (int p) (- 1) (Some lt) (Some rt))"
  using build_subtree_unfold [OF assms(1)] assms(2-5) by (simp add: bindE_Inr)

lemma build_subtree_fault:
  assumes "get_most_frequent d xs = Inr (label, freq)"
    and "\<not> fge (fdiv (d_of_int freq) (d_of_int (int (length xs)))) THRESHOLD_RATIO"
    and "find_best_split d xs = Inl e"
  shows "build_subtree d xs = Inl e"
  using build_subtree_unfold [OF assms(1)] assms(2,3) by (simp add: bindE_Inl)

lemma build_subtree_Nil: "build_subtree d [] = Inl UninitialisedRead"
proof -
  have gmf: "get_most_frequent d [] = Inr (0, 0)"
    by (subst get_most_frequent_eval) (simp_all add: tally_def upt_10)
  have "find_best_split d [] = Inl UninitialisedRead"
    by (rule find_best_split_none) (simp_all add: gini_value_def)
  with build_subtree_unfold [OF gmf] show ?thesis by (simp add: bindE_Inl ratio_none)
qed

section \<open>Well-formed inputs and the sample datasets\<close>

lemma wf_pixel_ok:
  "wf_dataset d \<Longrightarrow> valid_subset d xs \<Longrightarrow> p < NUM_PIXELS \<Longrightarrow> \<forall>i\<in>set xs. pixel_ok d p i"
  by (auto simp add: wf_dataset_def valid_subset_def pixel_ok_def list_all_iff all_set_conv_all_nth)

lemma wf_label_ok:
  "wf_dataset d \<Longrightarrow> valid_subset d xs \<Longrightarrow> \<forall>i\<in>set xs. label_ok d i"
  by (auto simp add: wf_dataset_def valid_subset_def label_ok_def list_all_iff all_set_conv_all_nth)

lemma wf_in_bounds:
  "wf_dataset d \<Longrightarrow> valid_subset d xs \<Longrightarrow> p < NUM_PIXELS \<Longrightarrow> \<forall>i\<in>set xs. in_bounds d p i"
  using wf_pixel_ok [of d xs p] wf_label_ok [of d xs] by (simp add: in_bounds_iff)

lemma wf_d_same: "wf_dataset d_same"
  by (simp add: wf_dataset_def d_same_def blank_def NUM_PIXELS_def WIDTH_def)

lemma wf_d_clash: "wf_dataset d_clash"
  by (simp add: wf_dataset_def d_clash_def blank_def NUM_PIXELS_def WIDTH_def)

lemma wf_d_four: "wf_dataset d_four"
  by (simp add: wf_dataset_def d_four_def blank_def lit_def NUM_PIXELS_def WIDTH_def)

lemma valid_d_same: "valid_subset d_same [0, 1]"
  by (simp add: valid_subset_def d_same_def)

lemma valid_d_clash: "valid_subset d_clash [0, 1]"
  by (simp add: valid_subset_def d_clash_def)

lemma valid_d_four: "valid_subset d_four [0, 1, 2, 3]"
  by (simp add: valid_subset_def d_four_def)

lemma wf_d_round: "wf_dataset d_round"
  by (simp add: wf_dataset_def d_round_def blank_def lit_def NUM_PIXELS_def WIDTH_def)

lemma valid_d_round: "valid_subset d_round [0, 1, 2, 3]"
  by (simp add: valid_subset_def d_round_def)

lemma blank_nth: "p < 784 \<Longrightarrow> data blank ! p = 0"
  by (simp add: blank_def)

lemma blank_length: "length (data blank) = 784"
  by (simp add: blank_def)

lemma lit_nth: "p < 784 \<Longrightarrow> data lit ! p = (if p = 0 then 255 else 0)"
  by (cases p) (simp_all add: lit_def)

lemma grey_facts: "length (data grey) = 784" "data grey ! 0 = 100"
  by (simp_all add: grey_def)

subsection \<open>Two identical images with one label\<close>

lemma get_most_frequent_d_same: "get_most_frequent d_same [0, 1] = Inr (3, 2)"
  by (subst get_most_frequent_eval)
    (simp_all add: label_ok_def tally_def d_same_def upt_10)

lemma build_subtree_d_same: "build_subtree d_same [0, 1] = Inr (DTNode (- 1) 3 None None)"
  by (rule build_subtree_leaf [OF get_most_frequent_d_same]) (simp add: ratio_whole)

subsection \<open>Two identical images with different labels\<close>

lemma gini_d_clash: "p < 784 \<Longrightarrow> gini_value d_clash [0, 1] p = NaN"
  by (simp add: gini_value_def low_def d_clash_def blank_nth)

lemma find_best_split_d_clash: "find_best_split d_clash [0, 1] = Inl UninitialisedRead"
proof (rule find_best_split_none)
  show "\<forall>p<784. \<forall>i\<in>set [0, 1]. in_bounds d_clash p i"
    using wf_in_bounds [OF wf_d_clash valid_d_clash] by (simp add: NUM_PIXELS_784)
  show "\<forall>p<784. gini_value d_clash [0, 1] p = NaN"
    using gini_d_clash by blast
qed

lemma get_most_frequent_d_clash: "get_most_frequent d_clash [0, 1] = Inr (0, 1)"
  by (subst get_most_frequent_eval)
    (simp_all add: label_ok_def tally_def d_clash_def upt_10)

lemma build_subtree_d_clash: "build_subtree d_clash [0, 1] = Inl UninitialisedRead"
  by (rule build_subtree_fault [OF get_most_frequent_d_clash _ find_best_split_d_clash])
    (simp add: ratio_half)

subsection \<open>Four images that pixel 0 separates\<close>

lemma gini_d_four: "p < 784 \<Longrightarrow> gini_value d_four [0, 1, 2, 3] p \<noteq> NaN \<longleftrightarrow> p = 0"
  by (simp add: gini_value_def low_def d_four_def blank_nth lit_nth)

lemma find_best_split_d_four: "find_best_split d_four [0, 1, 2, 3] = Inr 0"
proof -
  have "\<forall>p<784. \<forall>i\<in>set [0, 1, 2, 3]. in_bounds d_four p i"
    using wf_in_bounds [OF wf_d_four valid_d_four] by (simp add: NUM_PIXELS_784)
  moreover have "(0::nat) < 784" by simp
  moreover have "gini_value d_four [0, 1, 2, 3] 0 \<noteq> NaN"
    using gini_d_four [of 0] by simp
  ultimately obtain j where j: "j < 784" "find_best_split d_four [0, 1, 2, 3] = Inr j"
    "gini_value d_four [0, 1, 2, 3] j \<noteq> NaN"
    using find_best_split_exists by blast
  from gini_d_four [OF j(1)] j(3) have "j = 0" by blast
  with j(2) show ?thesis by simp
qed

lemma get_most_frequent_d_four:
  "get_most_frequent d_four [0, 1, 2, 3] = Inr (0, 2)"
  "get_most_frequent d_four [0, 1] = Inr (0, 2)"
  "get_most_frequent d_four [2, 3] = Inr (1, 2)"
  by (subst get_most_frequent_eval; simp add: label_ok_def tally_def d_four_def upt_10)+

lemma filter_d_four:
  "filter (low d_four 0) [0, 1, 2, 3] = [0, 1]"
  "filter (\<lambda>i. \<not> low d_four 0 i) [0, 1, 2, 3] = [2, 3]"
  by (simp_all add: low_def d_four_def blank_nth lit_nth)

lemma build_subtree_d_four:
  "build_subtree d_four [0, 1, 2, 3] =
     Inr (DTNode 0 (- 1) (Some (DTNode (- 1) 0 None None)) (Some (DTNode (- 1) 1 None None)))"
proof -
  have l: "build_subtree d_four (filter (low d_four 0) [0, 1, 2, 3]) =
      Inr (DTNode (- 1) 0 None None)"
    unfolding filter_d_four
    by (rule build_subtree_leaf [OF get_most_frequent_d_four(2)]) (simp add: ratio_whole)
  have r: "build_subtree d_four (filter (\<lambda>i. \<not> low d_four 0 i) [0, 1, 2, 3]) =
      Inr (DTNode (- 1) 1 None None)"
    unfolding filter_d_four
    by (rule build_subtree_leaf [OF get_most_frequent_d_four(3)]) (simp add: ratio_whole)
  have "build_subtree d_four [0, 1, 2, 3] =
     Inr (DTNode (int 0) (- 1) (Some (DTNode (- 1) 0 None None)) (Some (DTNode (- 1) 1 None None)))"
    by (rule build_subtree_split [OF get_most_frequent_d_four(1) _ find_best_split_d_four l r])
      (simp add: ratio_half)
  then show ?thesis by simp
qed

lemma build_subtree_d_four_children:
  "build_subtree d_four [0, 1] = Inr (DTNode (- 1) 0 None None)"
  "build_subtree d_four [2, 3] = Inr (DTNode (- 1) 1 None None)"
  by (rule build_subtree_leaf [OF get_most_frequent_d_four(2)], simp add: ratio_whole)
    (rule build_subtree_leaf [OF get_most_frequent_d_four(3)], simp add: ratio_whole)

lemma split_data_d_four: "split_data d_four [0, 1, 2, 3] 0 0 0 = Inr ([0, 1], [2, 3], 2, 2)"
proof -
  have ok: "\<forall>i\<in>set [0, 1, 2, 3]. pixel_ok d_four 0 i"
    using wf_pixel_ok [OF wf_d_four valid_d_four, of 0] by (simp add: NUM_PIXELS_784)
  have "split_data d_four [0, 1, 2, 3] 0 0 0 =
      Inr (filter (low d_four 0) [0, 1, 2, 3], filter (\<lambda>i. \<not> low d_four 0 i) [0, 1, 2, 3],
           0 + length (filter (low d_four 0) [0, 1, 2, 3]),
           0 + length (filter (\<lambda>i. \<not> low d_four 0 i) [0, 1, 2, 3]))"
    by (simp only: split_data_eq if_P [OF ok])
  then show ?thesis unfolding filter_d_four by simp
qed

section \<open>The properties\<close>

subsection \<open>gini_impurity\<close>

lemma sum_list_indicator:
  "l < 10 \<Longrightarrow> (\<Sum>k\<leftarrow>[0..<10]. if l = k then 1 else (0::int)) = 1"
proof -
  assume "l < 10"
  have "(\<Sum>k\<leftarrow>[0..<10]. if l = k then 1 else (0::int)) = (\<Sum>k\<in>set [0..<10]. if l = k then 1 else 0)"
    by (rule sum_list_distinct_conv_sum_set) (simp only: distinct_upt)
  also have "\<dots> = 1" using \<open>l < 10\<close> by simp
  finally show ?thesis .
qed

lemma sum_tally:
  "\<forall>i\<in>set g. label_ok d i \<Longrightarrow> (\<Sum>k\<leftarrow>[0..<10]. tally d g k) = int (length g)"
proof (induction g)
  case Nil
  show ?case by (simp add: tally_def del: upt_Suc)
next
  case (Cons i g)
  then have "unat (labels d ! i) < 10" by (simp add: label_ok_def)
  then have "(\<Sum>k\<leftarrow>[0..<10]. if unat (labels d ! i) = k then 1 else (0::int)) = 1"
    by (rule sum_list_indicator)
  with Cons show ?case
    by (simp add: tally_Cons sum_list_addf del: upt_Suc)
qed

lemma sum_share_split:
  fixes n :: rat
  shows "(\<Sum>k\<leftarrow>ks. (of_int (t k) / n) * (1 - of_int (t k) / n)) =
         of_int (\<Sum>k\<leftarrow>ks. t k) / n - (\<Sum>k\<leftarrow>ks. (of_int (t k) / n) * (of_int (t k) / n))"
  by (induction ks) (simp_all add: algebra_simps add_divide_distrib)

lemma impurity_sum_alt:
  assumes "g \<noteq> []" and "\<forall>i\<in>set g. label_ok d i"
  shows "impurity_sum d g =
     1 - (\<Sum>k\<leftarrow>[0..<10]. (of_int (tally d g k) / of_nat (length g)) *
                          (of_int (tally d g k) / of_nat (length g)))"
proof -
  from assms(1) have "(of_nat (length g) :: rat) \<noteq> 0" by simp
  then have "(of_int (int (length g)) :: rat) / of_nat (length g) = 1" by simp
  then show ?thesis
    unfolding impurity_sum_def sum_share_split sum_tally [OF assms(2)] by simp
qed

lemma impurity_sum_exact:
  assumes "g \<noteq> []" and "\<forall>i\<in>set g. label_ok d i"
  shows "impurity_sum d g = exact_group_impurity d g"
  unfolding impurity_sum_alt [OF assms] exact_group_impurity_def
  by (simp add: power2_eq_square)

lemma share_bounds:
  assumes "g \<noteq> []"
  shows "(0::rat) \<le> of_int (tally d g k) / of_nat (length g) \<and>
         of_int (tally d g k) / of_nat (length g) \<le> (1::rat)"
proof -
  have "tally d g k \<le> int (length g)" "0 \<le> tally d g k"
    by (simp_all add: tally_def)
  then have "(of_int (tally d g k) :: rat) \<le> of_int (int (length g))"
    "(0::rat) \<le> of_int (tally d g k)"
    by (simp_all only: of_int_le_iff of_int_0_le_iff)
  with assms show ?thesis by (simp add: divide_le_eq)
qed

lemma sum_list_shares:
  fixes n :: rat
  shows "(\<Sum>k\<leftarrow>ks. of_int (t k) / n) = of_int (\<Sum>k\<leftarrow>ks. t k) / n"
  by (induction ks) (simp_all add: add_divide_distrib)

lemma sum_shares:
  assumes "g \<noteq> []" and "\<forall>i\<in>set g. label_ok d i"
  shows "(\<Sum>k\<leftarrow>[0..<10]. (of_int (tally d g k) / of_nat (length g) :: rat)) = 1"
proof -
  from assms(1) have "(of_nat (length g) :: rat) \<noteq> 0" by simp
  then have "(of_int (int (length g)) :: rat) / of_nat (length g) = 1" by simp
  then show ?thesis
    unfolding sum_list_shares sum_tally [OF assms(2)] .
qed

text \<open>The value of a non-empty group is within \<open>50 kappa\<close> of the exact sum, which is at
  most 9/10 for ten labels.\<close>

lemma group_value_bounds:
  assumes "g \<noteq> []" and "\<forall>i\<in>set g. label_ok d i"
  shows "0 \<le> group_value d g \<and> \<bar>group_value d g - impurity_sum d g\<bar> \<le> 50 * kappa \<and>
         0 \<le> impurity_sum d g \<and> impurity_sum d g \<le> 9 / 10"
proof -
  have a: "\<forall>k\<in>set [0..<10]. (0::rat) \<le> of_int (tally d g k) / of_nat (length g) \<and>
      of_int (tally d g k) / of_nat (length g) \<le> (1::rat)"
    using share_bounds [OF assms(1)] by blast
  have b: "(\<Sum>k\<leftarrow>[0..<10]. (of_int (tally d g k) / of_nat (length g) :: rat)) = 1"
    by (rule sum_shares [OF assms])
  have c: "length [0..<10] = 10" by simp
  from group_sum_bounds [OF a b c] show ?thesis
    unfolding group_value_def impurity_sum_def .
qed

lemma kappa_53: "53 * kappa \<le> 1 / 2 ^ 47"
  by (simp add: kappa_def)

lemma gini_value_bounds:
  assumes ok: "\<forall>i\<in>set xs. label_ok d i"
    and A: "filter (low d p) xs \<noteq> []" and B: "filter (\<lambda>i. \<not> low d p i) xs \<noteq> []"
  shows "\<exists>r. gini_value d xs p = Fin r \<and> 0 \<le> r \<and> r \<le> 1 \<and>
           \<bar>r - (impurity_sum d (filter (low d p) xs) * of_nat (length (filter (low d p) xs)) +
                 impurity_sum d (filter (\<lambda>i. \<not> low d p i) xs) *
                   of_nat (length (filter (\<lambda>i. \<not> low d p i) xs)))
                / of_nat (length xs)\<bar> \<le> 53 * kappa"
proof -
  define A where "A = filter (low d p) xs"
  define B where "B = filter (\<lambda>i. \<not> low d p i) xs"
  define a b :: rat where "a = of_nat (length A)" and "b = of_nat (length B)"
  have okA: "\<forall>i\<in>set A. label_ok d i" and okB: "\<forall>i\<in>set B. label_ok d i"
    using ok by (simp_all add: A_def B_def)
  have ne: "A \<noteq> []" "B \<noteq> []" using assms(2,3) by (simp_all add: A_def B_def)
  have "length A + length B = length xs"
    unfolding A_def B_def by (rule sum_length_filter_compl)
  then have len: "(of_nat (length xs) :: rat) = a + b"
    unfolding a_def b_def by (metis of_nat_add)
  have "1 \<le> length A" "1 \<le> length B" using ne by (simp_all add: Suc_le_eq)
  then have "(of_nat 1 :: rat) \<le> of_nat (length A)" "(of_nat 1 :: rat) \<le> of_nat (length B)"
    by (simp_all only: of_nat_le_iff)
  then have n: "1 \<le> a" "1 \<le> b" by (simp_all add: a_def b_def)
  from group_value_bounds [OF ne(1) okA]
  have gA: "0 \<le> group_value d A" "\<bar>group_value d A - impurity_sum d A\<bar> \<le> 50 * kappa"
    "0 \<le> impurity_sum d A" "impurity_sum d A \<le> 9 / 10" by simp_all
  from group_value_bounds [OF ne(2) okB]
  have gB: "0 \<le> group_value d B" "\<bar>group_value d B - impurity_sum d B\<bar> \<le> 50 * kappa"
    "0 \<le> impurity_sum d B" "impurity_sum d B \<le> 9 / 10" by simp_all
  have val: "gini_value d xs p =
      Fin (round_value (round_value (round_value (group_value d A * a) +
                                     round_value (group_value d B * b)) / (a + b)))"
    using ne
    by (simp add: gini_value_def Let_def A_def [symmetric] B_def [symmetric] len a_def b_def)
  from weighted_bounds [OF gA gB n] val show ?thesis
    unfolding A_def [symmetric] B_def [symmetric] a_def [symmetric] b_def [symmetric] len
    by blast
qed

lemma exact_gini_eq:
  assumes ok: "\<forall>i\<in>set xs. label_ok d i"
    and A: "filter (low d p) xs \<noteq> []" and B: "filter (\<lambda>i. \<not> low d p i) xs \<noteq> []"
  shows "exact_gini d xs p =
     (impurity_sum d (filter (low d p) xs) * of_nat (length (filter (low d p) xs)) +
      impurity_sum d (filter (\<lambda>i. \<not> low d p i) xs) *
        of_nat (length (filter (\<lambda>i. \<not> low d p i) xs))) / of_nat (length xs)"
proof -
  have okA: "\<forall>i\<in>set (filter (low d p) xs). label_ok d i"
    and okB: "\<forall>i\<in>set (filter (\<lambda>i. \<not> low d p i) xs). label_ok d i"
    using ok by simp_all
  show ?thesis
    unfolding impurity_sum_exact [OF A okA] impurity_sum_exact [OF B okB]
    by (simp only: exact_gini_def Let_def low_def [abs_def])
qed

subsection \<open>The impurities of the dataset with the shares 2/3 and 1/3\<close>

text \<open>The roundings met when the impurity of pixel 0 is computed, by the program and
  by the formula of the specification.\<close>

lemma round_facts:
  "round_value (2 / 3) = 6004799503160661 / 9007199254740992"
  "round_value (3002399751580331 / 9007199254740992) = 3002399751580331 / 9007199254740992"
  "round_value (18028808536579263599864140558791 / 81129638414606681695789005144064) = 8006399337547549 / 36028797018963968"
  "round_value (8006399337547549 / 36028797018963968) = 8006399337547549 / 36028797018963968"
  "round_value (1 / 3) = 6004799503160661 / 18014398509481984"
  "round_value (12009599006321323 / 18014398509481984) = 3002399751580331 / 4503599627370496"
  "round_value (8006399337547549 / 18014398509481984) = 8006399337547549 / 18014398509481984"
  "round_value (24019198012642647 / 18014398509481984) = 3002399751580331 / 2251799813685248"
  "round_value (3002399751580331 / 2251799813685248) = 3002399751580331 / 2251799813685248"
  "round_value (36057617073158521194928777956921 / 81129638414606681695789005144064) = 2001599834386887 / 4503599627370496"
  "round_value (2001599834386887 / 4503599627370496) = 2001599834386887 / 4503599627370496"
  "round_value (36057617073158521194928777956921 / 324518553658426726783156020576256) = 2001599834386887 / 18014398509481984"
  "round_value (10007999171934435 / 18014398509481984) = 2501999792983609 / 4503599627370496"
  "round_value (2501999792983609 / 4503599627370496) = 2501999792983609 / 4503599627370496"
  "round_value (6004799503160661 / 4503599627370496) = 6004799503160661 / 4503599627370496"
  "round_value (6004799503160661 / 18014398509481984) = 6004799503160661 / 18014398509481984"
  by code_simp+

lemma filter_d_round:
  "filter (low d_round 0) [0, 1, 2, 3] = [0]"
  "filter (\<lambda>i. \<not> low d_round 0 i) [0, 1, 2, 3] = [1, 2, 3]"
  by (simp_all add: low_def d_round_def blank_nth lit_nth)

lemma filter_data_d_round:
  "filter (\<lambda>i. data (images d_round ! i) ! 0 < 128) [0, 1, 2, 3] = [0]"
  "filter (\<lambda>i. \<not> data (images d_round ! i) ! 0 < 128) [0, 1, 2, 3] = [1, 2, 3]"
  by (simp_all add: d_round_def blank_nth lit_nth)

lemma group_value_d_round:
  "group_value d_round [0] = 0"
  "group_value d_round [1, 2, 3] = 8006399337547549 / 18014398509481984"
  by (simp_all add: group_value_def tally_def d_round_def upt_10 term_value_def Let_def
      round_value_0 round_value_1 round_facts)

lemma gini_value_d_round:
  "gini_value d_round [0, 1, 2, 3] 0 = Fin (3002399751580331 / 9007199254740992)"
  unfolding gini_value_def Let_def filter_d_round group_value_d_round
  by (simp add: round_value_0 round_facts)

lemma gini_impurity_d_round:
  "gini_impurity d_round [0, 1, 2, 3] 0 = Inr (Fin (3002399751580331 / 9007199254740992))"
proof -
  have ib: "\<forall>i\<in>set [0, 1, 2, 3]. in_bounds d_round 0 i"
    using wf_in_bounds [OF wf_d_round valid_d_round, of 0] by (simp add: NUM_PIXELS_784)
  have "gini_impurity d_round [0, 1, 2, 3] 0 = Inr (gini_value d_round [0, 1, 2, 3] 0)"
    by (simp only: gini_impurity_eq if_P [OF ib])
  then show ?thesis by (simp only: gini_value_d_round)
qed

lemma spec_group_d_round:
  "spec_group_impurity d_round [0] = Fin 0"
  "spec_group_impurity d_round [1, 2, 3] = Fin (2001599834386887 / 4503599627370496)"
  by (simp_all add: spec_group_impurity_def tally_def d_round_def upt_10 d_of_int_def fsub_def
      Let_def round_value_0 round_value_1 round_facts)

lemma spec_gini_d_round:
  "spec_gini d_round [0, 1, 2, 3] 0 = Fin (6004799503160661 / 18014398509481984)"
  unfolding spec_gini_def Let_def filter_data_d_round spec_group_d_round
  by (simp add: d_of_int_def round_value_0 round_facts)

lemma exact_group_d_round:
  "exact_group_impurity d_round [0] = 0"
  "exact_group_impurity d_round [1, 2, 3] = 4 / 9"
  by (simp_all add: exact_group_impurity_def tally_def d_round_def upt_10 power2_eq_square)

lemma exact_gini_d_round: "exact_gini d_round [0, 1, 2, 3] 0 = 1 / 3"
  unfolding exact_gini_def Let_def filter_data_d_round exact_group_d_round
  by simp

subsection \<open>The value of gini_impurity\<close>

text \<open>
  C5, the counterexample. On four images, one with pixel 0 dark and three with pixel 0
  lit and the labels 0, 0, 1, the weighted average of the two impurities is 1/3. The
  formula of the specification, computed in doubles, gives the double nearest to 1/3,
  \<open>6004799503160661 / 2^54\<close>. \<^verbatim>\<open>gini_impurity\<close> returns the next double above it,
  \<open>6004799503160662 / 2^54\<close>: it adds up the products \<open>q (1 - q)\<close> of the shares, and
  each of its operations rounds.
\<close>

theorem gini_impurity_not_weighted_average:
  "wf_dataset d_round \<and> valid_subset d_round [0, 1, 2, 3] \<and>
   gini_impurity d_round [0, 1, 2, 3] 0 = Inr (Fin (6004799503160662 / 2 ^ 54)) \<and>
   spec_gini d_round [0, 1, 2, 3] 0 = Fin (6004799503160661 / 2 ^ 54) \<and>
   exact_gini d_round [0, 1, 2, 3] 0 = 1 / 3 \<and>
   gini_impurity d_round [0, 1, 2, 3] 0 \<noteq> Inr (spec_gini d_round [0, 1, 2, 3] 0) \<and>
   gini_impurity d_round [0, 1, 2, 3] 0 \<noteq> Inr (Fin (exact_gini d_round [0, 1, 2, 3] 0))"
  unfolding gini_impurity_d_round spec_gini_d_round exact_gini_d_round
  using wf_d_round valid_d_round by simp

text \<open>
  C5, as it holds. On a well-formed dataset, a subset of its positions and a pixel of
  the image, let group A hold the indices whose intensity at the pixel is below 128 and
  group B the others. When both groups are non-empty, \<^verbatim>\<open>gini_impurity\<close> returns a
  finite double that differs by at most \<open>2^-47\<close> from the average, weighted by the group
  sizes, of the two group impurities \<open>1 - \<Sum> (count / size)^2\<close>. When a group is empty
  it returns not-a-number.
\<close>

theorem gini_impurity_near_weighted_average:
  assumes "wf_dataset d" and "valid_subset d xs" and "p < NUM_PIXELS"
  shows "(filter (\<lambda>i. data (images d ! i) ! p < 128) xs \<noteq> [] \<and>
          filter (\<lambda>i. \<not> data (images d ! i) ! p < 128) xs \<noteq> [] \<longrightarrow>
            (\<exists>r. gini_impurity d xs p = Inr (Fin r) \<and>
                 \<bar>r - exact_gini d xs p\<bar> \<le> 1 / 2 ^ 47)) \<and>
         (filter (\<lambda>i. data (images d ! i) ! p < 128) xs = [] \<or>
          filter (\<lambda>i. \<not> data (images d ! i) ! p < 128) xs = [] \<longrightarrow>
            gini_impurity d xs p = Inr NaN)"
proof -
  from assms have ib: "\<forall>i\<in>set xs. in_bounds d p i" by (rule wf_in_bounds)
  from assms(1,2) have ok: "\<forall>i\<in>set xs. label_ok d i" by (rule wf_label_ok)
  from ib have g: "gini_impurity d xs p = Inr (gini_value d xs p)"
    by (simp add: gini_impurity_eq)
  have "\<exists>r. gini_value d xs p = Fin r \<and> \<bar>r - exact_gini d xs p\<bar> \<le> 1 / 2 ^ 47"
    if ne: "filter (low d p) xs \<noteq> []" "filter (\<lambda>i. \<not> low d p i) xs \<noteq> []"
  proof -
    from gini_value_bounds [OF ok ne] obtain r where r: "gini_value d xs p = Fin r"
      and "\<bar>r - (impurity_sum d (filter (low d p) xs) * of_nat (length (filter (low d p) xs)) +
                 impurity_sum d (filter (\<lambda>i. \<not> low d p i) xs) *
                   of_nat (length (filter (\<lambda>i. \<not> low d p i) xs)))
                / of_nat (length xs)\<bar> \<le> 53 * kappa"
      by blast
    then have "\<bar>r - exact_gini d xs p\<bar> \<le> 53 * kappa"
      by (simp only: exact_gini_eq [OF ok ne])
    with kappa_53 have "\<bar>r - exact_gini d xs p\<bar> \<le> 1 / 2 ^ 47" by linarith
    with r show ?thesis by blast
  qed
  moreover have "gini_value d xs p = NaN"
    if "filter (low d p) xs = [] \<or> filter (\<lambda>i. \<not> low d p i) xs = []"
    using that by (auto simp add: gini_value_def Let_def)
  ultimately show ?thesis
    unfolding low_def [symmetric] g by simp
qed

theorem gini_impurity_near_weighted_average_witness:
  "wf_dataset d_round \<and> valid_subset d_round [0, 1, 2, 3] \<and> 0 < NUM_PIXELS \<and>
   filter (\<lambda>i. data (images d_round ! i) ! 0 < 128) [0, 1, 2, 3] = [0] \<and>
   filter (\<lambda>i. \<not> data (images d_round ! i) ! 0 < 128) [0, 1, 2, 3] = [1, 2, 3] \<and>
   gini_impurity d_round [0, 1, 2, 3] 0 = Inr (Fin (6004799503160662 / 2 ^ 54)) \<and>
   exact_gini d_round [0, 1, 2, 3] 0 = 1 / 3 \<and>
   \<bar>6004799503160662 / 2 ^ 54 - exact_gini d_round [0, 1, 2, 3] 0\<bar> \<le> 1 / 2 ^ 47"
proof -
  have p: "0 < NUM_PIXELS" by (simp add: NUM_PIXELS_784)
  have gi: "gini_impurity d_round [0, 1, 2, 3] 0 = Inr (Fin (6004799503160662 / 2 ^ 54))"
    unfolding gini_impurity_d_round by simp
  from gini_impurity_near_weighted_average [OF wf_d_round valid_d_round p]
  have "\<exists>r. gini_impurity d_round [0, 1, 2, 3] 0 = Inr (Fin r) \<and>
      \<bar>r - exact_gini d_round [0, 1, 2, 3] 0\<bar> \<le> 1 / 2 ^ 47"
    unfolding filter_data_d_round by simp
  then obtain r where r: "gini_impurity d_round [0, 1, 2, 3] 0 = Inr (Fin r)"
    and b: "\<bar>r - exact_gini d_round [0, 1, 2, 3] 0\<bar> \<le> 1 / 2 ^ 47"
    by (elim exE conjE)
  from r have "r = 6004799503160662 / 2 ^ 54" unfolding gi by simp
  with b have near: "\<bar>6004799503160662 / 2 ^ 54 - exact_gini d_round [0, 1, 2, 3] 0\<bar> \<le> 1 / 2 ^ 47"
    by (simp only:)
  from wf_d_round valid_d_round p filter_data_d_round gi exact_gini_d_round near
  show ?thesis by (intro conjI)
qed

text \<open>
  C6. On a well-formed dataset, a subset of its positions and a pixel of the image, the
  result of \<^verbatim>\<open>gini_impurity\<close> is a finite value between 0 and 1 when both groups are
  non-empty, and is not-a-number when a group is empty: the share \<open>0/0\<close> of each label
  in the empty group is not-a-number, and it propagates through the sum, the product
  and the quotient.
\<close>

theorem gini_impurity_range:
  assumes "wf_dataset d" and "valid_subset d xs" and "p < NUM_PIXELS"
  shows "(filter (\<lambda>i. data (images d ! i) ! p < 128) xs \<noteq> [] \<and>
          filter (\<lambda>i. \<not> data (images d ! i) ! p < 128) xs \<noteq> [] \<longrightarrow>
            (\<exists>r. gini_impurity d xs p = Inr (Fin r) \<and> 0 \<le> r \<and> r \<le> 1)) \<and>
         (filter (\<lambda>i. data (images d ! i) ! p < 128) xs = [] \<or>
          filter (\<lambda>i. \<not> data (images d ! i) ! p < 128) xs = [] \<longrightarrow>
            gini_impurity d xs p = Inr NaN) \<and>
         fdiv (d_of_int 0) (d_of_int 0) = NaN"
proof -
  from assms have ib: "\<forall>i\<in>set xs. in_bounds d p i" by (rule wf_in_bounds)
  from assms(1,2) have ok: "\<forall>i\<in>set xs. label_ok d i" by (rule wf_label_ok)
  from ib have g: "gini_impurity d xs p = Inr (gini_value d xs p)"
    by (simp add: gini_impurity_eq)
  have "\<exists>r. gini_value d xs p = Fin r \<and> 0 \<le> r \<and> r \<le> 1"
    if "filter (low d p) xs \<noteq> []" "filter (\<lambda>i. \<not> low d p i) xs \<noteq> []"
    using gini_value_bounds [OF ok that] by blast
  moreover have "gini_value d xs p = NaN"
    if "filter (low d p) xs = [] \<or> filter (\<lambda>i. \<not> low d p i) xs = []"
    using that by (auto simp add: gini_value_def Let_def)
  ultimately show ?thesis
    unfolding low_def [symmetric] g by (simp add: d_of_int_def)
qed

theorem gini_impurity_range_witness:
  "wf_dataset d_four \<and> valid_subset d_four [0, 1, 2, 3] \<and> 0 < NUM_PIXELS \<and> 1 < NUM_PIXELS \<and>
   (\<exists>r. gini_impurity d_four [0, 1, 2, 3] 0 = Inr (Fin r) \<and> 0 \<le> r \<and> r \<le> 1) \<and>
   gini_impurity d_four [0, 1, 2, 3] 1 = Inr NaN"
proof -
  have p0: "0 < NUM_PIXELS" and p1: "1 < NUM_PIXELS" by (simp_all add: NUM_PIXELS_784)
  from gini_impurity_range [OF wf_d_four valid_d_four p0]
  have "\<exists>r. gini_impurity d_four [0, 1, 2, 3] 0 = Inr (Fin r) \<and> 0 \<le> r \<and> r \<le> 1"
    by (simp add: d_four_def blank_def lit_def)
  moreover from gini_impurity_range [OF wf_d_four valid_d_four p1]
  have "gini_impurity d_four [0, 1, 2, 3] 1 = Inr NaN"
    by (simp add: d_four_def blank_def lit_def)
  ultimately show ?thesis using wf_d_four valid_d_four p0 p1 by simp
qed

subsection \<open>get_most_frequent and split_data\<close>

text \<open>
  C8. On a well-formed dataset and a subset of its positions, \<^verbatim>\<open>get_most_frequent\<close>
  stores in \<^verbatim>\<open>*freq\<close> the number of occurrences of \<^verbatim>\<open>*label\<close>, no label occurs more often,
  \<^verbatim>\<open>*label\<close> lies in \<open>0..9\<close> and is the smallest label occurring that often.
\<close>

theorem get_most_frequent_max:
  assumes "wf_dataset d" and "valid_subset d xs"
  shows "\<exists>label freq. get_most_frequent d xs = Inr (label, freq) \<and>
           0 \<le> label \<and> label < 10 \<and> freq = tally d xs (nat label) \<and>
           (\<forall>k. tally d xs k \<le> freq) \<and>
           (\<forall>k. tally d xs k = freq \<longrightarrow> label \<le> int k)"
  using assms by (intro get_most_frequent_spec wf_label_ok)

theorem get_most_frequent_max_witness:
  "wf_dataset d_four \<and> valid_subset d_four [0, 1, 2, 3] \<and>
   get_most_frequent d_four [0, 1, 2, 3] = Inr (0, 2) \<and>
   tally d_four [0, 1, 2, 3] 0 = 2 \<and> tally d_four [0, 1, 2, 3] 1 = 2 \<and>
   tally d_four [0, 1, 2, 3] 2 \<le> 2"
proof -
  from get_most_frequent_max [OF wf_d_four valid_d_four]
  obtain label freq where gmf: "get_most_frequent d_four [0, 1, 2, 3] = Inr (label, freq)"
    and count: "freq = tally d_four [0, 1, 2, 3] (nat label)"
    and mx: "\<forall>k. tally d_four [0, 1, 2, 3] k \<le> freq"
    by (elim exE conjE)
  from gmf have lf: "label = 0" "freq = 2" unfolding get_most_frequent_d_four by simp_all
  from count lf have t0: "tally d_four [0, 1, 2, 3] 0 = 2" by simp
  have t1: "tally d_four [0, 1, 2, 3] 1 = 2" by (simp add: tally_def d_four_def)
  from mx lf have t2: "tally d_four [0, 1, 2, 3] 2 \<le> 2" by simp
  from wf_d_four valid_d_four get_most_frequent_d_four(1) t0 t1 t2 show ?thesis
    by (intro conjI)
qed

text \<open>
  C7. On a well-formed dataset, a subset of its positions and a pixel of the image,
  \<^verbatim>\<open>split_data\<close>, entered with both sizes 0 as \<^verbatim>\<open>build_subtree\<close> does, returns as left group
  the indices whose intensity at the pixel is below 128 and as right group the others,
  each in the order of the input; the two sizes are the lengths of the groups and add up
  to the size of the input; every index occurs in the two groups together as often as in
  the input, and no index occurs in both.
\<close>

theorem split_data_partition:
  assumes "wf_dataset d" and "valid_subset d xs" and "p < NUM_PIXELS"
  shows "\<exists>l r left_size right_size.
           split_data d xs p 0 0 = Inr (l, r, left_size, right_size) \<and>
           l = filter (\<lambda>i. data (images d ! i) ! p < 128) xs \<and>
           r = filter (\<lambda>i. \<not> data (images d ! i) ! p < 128) xs \<and>
           left_size = length l \<and> right_size = length r \<and>
           left_size + right_size = length xs \<and>
           mset l + mset r = mset xs \<and> set l \<inter> set r = {} \<and>
           subseq l xs \<and> subseq r xs"
proof -
  from assms have "\<forall>i\<in>set xs. pixel_ok d p i" by (rule wf_pixel_ok)
  then have "split_data d xs p 0 0 =
      Inr (filter (low d p) xs, filter (\<lambda>i. \<not> low d p i) xs,
           length (filter (low d p) xs), length (filter (\<lambda>i. \<not> low d p i) xs))"
    by (simp add: split_data_eq)
  moreover have "low d p = (\<lambda>i. data (images d ! i) ! p < 128)"
    by (simp add: low_def fun_eq_iff)
  ultimately show ?thesis
    by (auto simp add: sum_length_filter_compl)
qed

theorem split_data_partition_witness:
  "wf_dataset d_four \<and> valid_subset d_four [0, 2, 1, 3] \<and> 0 < NUM_PIXELS \<and>
   split_data d_four [0, 2, 1, 3] 0 0 0 = Inr ([0, 1], [2, 3], 2, 2)"
proof -
  have v: "valid_subset d_four [0, 2, 1, 3]" by (simp add: valid_subset_def d_four_def)
  have p: "0 < NUM_PIXELS" by (simp add: NUM_PIXELS_def WIDTH_def)
  from split_data_partition [OF wf_d_four v p] wf_d_four v p show ?thesis
    by (auto simp add: d_four_def blank_def lit_def)
qed

subsection \<open>find_best_split\<close>

text \<open>
  C2, at the failing input. For two identical images with different labels every pixel
  has the impurity not-a-number. The test \<^verbatim>\<open>pixel_impurity != NAN\<close> is true of every
  value, not-a-number included, so it rejects nothing; the pixels are passed over only
  because \<^verbatim>\<open><\<close> and \<^verbatim>\<open>==\<close> are false on not-a-number. \<^verbatim>\<open>best_split\<close> is never assigned
  and \<^verbatim>\<open>find_best_split\<close> returns it uninitialised.
\<close>

theorem find_best_split_uninitialised:
  "gini_impurity d_clash [0, 1] 0 = Inr NaN \<and> fne NaN NAN \<and>
   \<not> flt NaN INFINITY \<and> \<not> feq NaN INFINITY \<and>
   find_best_split d_clash [0, 1] = Inl UninitialisedRead"
proof -
  have ib: "\<forall>i\<in>set [0, 1]. in_bounds d_clash 0 i"
    using wf_in_bounds [OF wf_d_clash valid_d_clash, of 0] by (simp add: NUM_PIXELS_784)
  have "gini_impurity d_clash [0, 1] 0 = Inr (gini_value d_clash [0, 1] 0)"
    by (simp only: gini_impurity_eq if_P [OF ib])
  moreover have "gini_value d_clash [0, 1] 0 = NaN"
    by (rule gini_d_clash) simp
  ultimately have "gini_impurity d_clash [0, 1] 0 = Inr NaN"
    by (simp only:)
  moreover have "fne NaN NAN" by (rule fne_NAN)
  moreover have "\<not> flt NaN INFINITY" "\<not> feq NaN INFINITY" by (simp_all add: INFINITY_def)
  ultimately show ?thesis using find_best_split_d_clash by (intro conjI)
qed

subsection \<open>build_subtree\<close>

text \<open>
  C1, at the failing input. The subset \<open>[0, 1]\<close> of the two identical images with the
  labels 0 and 1 is non-empty; its majority label 0 has the count 1, and the ratio 1/2 is
  below the threshold, so the claim has \<^verbatim>\<open>build_subtree\<close> emit a split node. No pixel
  separates the two images: \<^verbatim>\<open>find_best_split\<close> has no pixel to return and reads the
  unassigned \<^verbatim>\<open>best_split\<close>, and \<^verbatim>\<open>build_subtree\<close> emits no node, neither a leaf nor a
  split node.
\<close>

theorem build_subtree_no_node:
  "wf_dataset d_clash \<and> valid_subset d_clash [0, 1] \<and>
   get_most_frequent d_clash [0, 1] = Inr (0, 1) \<and>
   \<not> fge (fdiv (d_of_int 1) (d_of_int 2)) THRESHOLD_RATIO \<and>
   find_best_split d_clash [0, 1] = Inl UninitialisedRead \<and>
   build_subtree d_clash [0, 1] = Inl UninitialisedRead"
  using wf_d_clash valid_d_clash get_most_frequent_d_clash ratio_half(1)
    find_best_split_d_clash build_subtree_d_clash
  by (intro conjI)

lemma built_shape:
  "build_subtree d xs = Inr n \<Longrightarrow>
   \<forall>m\<in>set (nodes n). (leaf_shape m \<or> split_shape m) \<and>
     ((classification m \<noteq> - 1) = (left m = None \<and> right m = None))"
proof (induction "length xs" arbitrary: xs n rule: less_induct)
  case less
  from less.prems show ?case
  proof (cases rule: build_subtree_cases)
    case (leaf label freq)
    then show ?thesis by (simp add: leaf_shape_def)
  next
    case (split label freq p lt rt)
    from find_best_split_separates [OF split(3)]
    have ne: "filter (low d p) xs \<noteq> []" "filter (\<lambda>i. \<not> low d p i) xs \<noteq> []" by simp_all
    have "length (filter (low d p) xs) + length (filter (\<lambda>i. \<not> low d p i) xs) = length xs"
      by (rule sum_length_filter_compl)
    moreover from ne have "length (filter (low d p) xs) \<noteq> 0"
      "length (filter (\<lambda>i. \<not> low d p i) xs) \<noteq> 0" by simp_all
    ultimately have lt: "length (filter (low d p) xs) < length xs"
      "length (filter (\<lambda>i. \<not> low d p i) xs) < length xs" by linarith+
    note l = less.hyps [OF lt(1) split(4)] and r = less.hyps [OF lt(2) split(5)]
    from find_best_split_bound [OF split(3)] have "int p < 784" by simp
    then have "split_shape n" by (simp add: split_shape_def split(6))
    with l r split(6) show ?thesis by auto
  qed
qed

text \<open>
  C10. Every node of a tree that \<^verbatim>\<open>build_subtree\<close> returns has exactly one of two shapes:
  a leaf with pixel -1, a classification in \<open>0..9\<close> and two null children, or a split
  node with classification -1, a pixel in \<open>0..783\<close> and two non-null children. So the
  test \<^verbatim>\<open>classification != -1\<close> of \<^verbatim>\<open>dec_tree_classify\<close> and \<^verbatim>\<open>free_dec_tree\<close> holds
  of a node exactly when the node has no children.
\<close>

theorem build_subtree_node_shapes:
  assumes "build_subtree d xs = Inr n"
  shows "\<forall>m\<in>set (nodes n).
           (leaf_shape m \<and> \<not> split_shape m \<or> split_shape m \<and> \<not> leaf_shape m) \<and>
           ((classification m \<noteq> - 1) = (left m = None \<and> right m = None))"
proof
  fix m
  assume "m \<in> set (nodes n)"
  with built_shape [OF assms]
  have "leaf_shape m \<or> split_shape m"
    and "(classification m \<noteq> - 1) = (left m = None \<and> right m = None)"
    by blast+
  moreover have "\<not> (leaf_shape m \<and> split_shape m)"
    by (simp add: leaf_shape_def split_shape_def)
  ultimately show "(leaf_shape m \<and> \<not> split_shape m \<or> split_shape m \<and> \<not> leaf_shape m) \<and>
           ((classification m \<noteq> - 1) = (left m = None \<and> right m = None))"
    by blast
qed

theorem build_subtree_node_shapes_witness:
  "build_subtree d_four [0, 1, 2, 3] =
     Inr (DTNode 0 (- 1) (Some (DTNode (- 1) 0 None None)) (Some (DTNode (- 1) 1 None None))) \<and>
   split_shape (DTNode 0 (- 1) (Some (DTNode (- 1) 0 None None)) (Some (DTNode (- 1) 1 None None))) \<and>
   leaf_shape (DTNode (- 1) 0 None None) \<and> leaf_shape (DTNode (- 1) 1 None None) \<and>
   list_all (\<lambda>m. (classification m \<noteq> - 1) = (left m = None \<and> right m = None))
     (nodes (DTNode 0 (- 1) (Some (DTNode (- 1) 0 None None)) (Some (DTNode (- 1) 1 None None))))"
proof -
  from build_subtree_node_shapes [OF build_subtree_d_four]
  have all: "list_all (\<lambda>m. (classification m \<noteq> - 1) = (left m = None \<and> right m = None))
     (nodes (DTNode 0 (- 1) (Some (DTNode (- 1) 0 None None)) (Some (DTNode (- 1) 1 None None))))"
    unfolding list_all_iff by blast
  have shapes:
    "split_shape (DTNode 0 (- 1) (Some (DTNode (- 1) 0 None None)) (Some (DTNode (- 1) 1 None None)))"
    "leaf_shape (DTNode (- 1) 0 None None)" "leaf_shape (DTNode (- 1) 1 None None)"
    by (simp_all add: leaf_shape_def split_shape_def)
  from build_subtree_d_four shapes all show ?thesis by (intro conjI)
qed

lemma built_leaves_pure:
  "build_subtree d xs = Inr n \<Longrightarrow>
   \<forall>g\<in>set (leaf_subsets d n xs). g \<noteq> [] \<and>
     (\<exists>label freq. get_most_frequent d g = Inr (label, freq) \<and>
        fge (fdiv (d_of_int freq) (d_of_int (int (length g)))) THRESHOLD_RATIO)"
proof (induction "length xs" arbitrary: xs n rule: less_induct)
  case less
  from less.prems show ?case
  proof (cases rule: build_subtree_cases)
    case (leaf label freq)
    then show ?thesis by simp
  next
    case (split label freq p lt rt)
    from find_best_split_separates [OF split(3)]
    have ne: "filter (low d p) xs \<noteq> []" "filter (\<lambda>i. \<not> low d p i) xs \<noteq> []" by simp_all
    have "length (filter (low d p) xs) + length (filter (\<lambda>i. \<not> low d p i) xs) = length xs"
      by (rule sum_length_filter_compl)
    moreover from ne have "length (filter (low d p) xs) \<noteq> 0"
      "length (filter (\<lambda>i. \<not> low d p i) xs) \<noteq> 0" by simp_all
    ultimately have lt: "length (filter (low d p) xs) < length xs"
      "length (filter (\<lambda>i. \<not> low d p i) xs) < length xs" by linarith+
    note l = less.hyps [OF lt(1) split(4)] and r = less.hyps [OF lt(2) split(5)]
    have "leaf_subsets d n xs = leaf_subsets d lt (filter (low d p) xs) @
        leaf_subsets d rt (filter (\<lambda>i. \<not> low d p i) xs)"
      by (simp add: split(6))
    with l r show ?thesis by auto
  qed
qed

text \<open>
  C3, at the failing input. The dataset of two identical images with the labels 0 and 1
  is well formed and non-empty; its majority ratio is 1/2, no pixel separates the two
  images, and \<^verbatim>\<open>build_dec_tree\<close> returns no tree: \<^verbatim>\<open>find_best_split\<close> reads the
  unassigned \<^verbatim>\<open>best_split\<close>.
\<close>

theorem build_dec_tree_no_tree:
  "wf_dataset d_clash \<and> 0 < num_items d_clash \<and>
   get_most_frequent d_clash [0, 1] = Inr (0, 1) \<and>
   build_dec_tree d_clash = Inl UninitialisedRead"
proof -
  have "[0..<nat (num_items d_clash)] = [0, 1]"
    by (simp add: d_clash_def numeral_2_eq_2)
  then have "build_dec_tree d_clash = build_subtree d_clash [0, 1]"
    by (simp add: build_dec_tree_def Let_def d_clash_def)
  with wf_d_clash get_most_frequent_d_clash build_subtree_d_clash show ?thesis
    by (simp add: d_clash_def)
qed

text \<open>
  C4, at the failing input. On the same two images no pixel separates the subset: at
  pixel 0 (as at every other) \<^verbatim>\<open>split_data\<close> puts both indices left and none right.
  \<^verbatim>\<open>build_subtree\<close> has no case for an empty subset: there the ratio \<open>0/0\<close> is
  not-a-number, the test against the threshold fails, and \<^verbatim>\<open>find_best_split\<close> is called
  on zero examples, where no pixel has a defined impurity. No leaf is returned for
  the empty side.
\<close>

theorem build_subtree_empty_side:
  "split_data d_clash [0, 1] 0 0 0 = Inr ([0, 1], [], 2, 0) \<and>
   get_most_frequent d_clash [] = Inr (0, 0) \<and>
   \<not> fge (fdiv (d_of_int 0) (d_of_int 0)) THRESHOLD_RATIO \<and>
   find_best_split d_clash [] = Inl UninitialisedRead \<and>
   build_subtree d_clash [] = Inl UninitialisedRead"
proof -
  have ok: "\<forall>i\<in>set [0, 1]. pixel_ok d_clash 0 i"
    using wf_pixel_ok [OF wf_d_clash valid_d_clash, of 0] by (simp add: NUM_PIXELS_784)
  have "split_data d_clash [0, 1] 0 0 0 =
      Inr (filter (low d_clash 0) [0, 1], filter (\<lambda>i. \<not> low d_clash 0 i) [0, 1],
           0 + length (filter (low d_clash 0) [0, 1]),
           0 + length (filter (\<lambda>i. \<not> low d_clash 0 i) [0, 1]))"
    by (simp only: split_data_eq if_P [OF ok])
  moreover have "filter (low d_clash 0) [0, 1] = [0, 1]"
    "filter (\<lambda>i. \<not> low d_clash 0 i) [0, 1] = []"
    by (simp_all add: low_def d_clash_def blank_nth)
  ultimately have sd: "split_data d_clash [0, 1] 0 0 0 = Inr ([0, 1], [], 2, 0)" by simp
  have gmf: "get_most_frequent d_clash [] = Inr (0, 0)"
    by (subst get_most_frequent_eval) (simp_all add: tally_def upt_10)
  have fb: "find_best_split d_clash [] = Inl UninitialisedRead"
    by (rule find_best_split_none) (simp_all add: gini_value_def)
  have "\<not> fge (fdiv (d_of_int 0) (d_of_int 0)) THRESHOLD_RATIO"
    by (rule ratio_none)
  with sd gmf fb build_subtree_Nil [of d_clash] show ?thesis by simp
qed

subsection \<open>dec_tree_classify\<close>

lemma built_classify:
  "build_subtree d xs = Inr n \<Longrightarrow> 784 \<le> length (data img) \<Longrightarrow>
   \<exists>t. tree_of n = Some t \<and> dec_tree_classify n img = Inr (walk t (data img))"
proof (induction "length xs" arbitrary: xs n rule: less_induct)
  case less
  from less.prems(1) show ?case
  proof (cases rule: build_subtree_cases)
    case (leaf label freq)
    then show ?thesis by simp
  next
    case (split label freq p lt rt)
    from find_best_split_separates [OF split(3)]
    have ne: "filter (low d p) xs \<noteq> []" "filter (\<lambda>i. \<not> low d p i) xs \<noteq> []" by simp_all
    have "length (filter (low d p) xs) + length (filter (\<lambda>i. \<not> low d p i) xs) = length xs"
      by (rule sum_length_filter_compl)
    moreover from ne have "length (filter (low d p) xs) \<noteq> 0"
      "length (filter (\<lambda>i. \<not> low d p i) xs) \<noteq> 0" by simp_all
    ultimately have lt: "length (filter (low d p) xs) < length xs"
      "length (filter (\<lambda>i. \<not> low d p i) xs) < length xs" by linarith+
    from less.hyps [OF lt(1) split(4) less.prems(2)] obtain ta
      where ta: "tree_of lt = Some ta" "dec_tree_classify lt img = Inr (walk ta (data img))"
      by blast
    from less.hyps [OF lt(2) split(5) less.prems(2)] obtain tb
      where tb: "tree_of rt = Some tb" "dec_tree_classify rt img = Inr (walk tb (data img))"
      by blast
    from find_best_split_bound [OF split(3)] less.prems(2) have "p < length (data img)" by simp
    with ta tb split(6) show ?thesis by simp
  qed
qed

text \<open>
  C9. For a tree that \<^verbatim>\<open>build_subtree\<close> returns and an image of \<^verbatim>\<open>NUM_PIXELS\<close> pixels,
  \<^verbatim>\<open>dec_tree_classify\<close> returns the classification of the leaf that the walk from the
  root reaches, where the walk goes to the left child of a split node when the image's
  intensity at the node's pixel is 0 and to the right child otherwise.
\<close>

theorem dec_tree_classify_walk:
  assumes "build_subtree d xs = Inr n" and "length (data img) = NUM_PIXELS"
  shows "\<exists>t. tree_of n = Some t \<and> dec_tree_classify n img = Inr (walk t (data img))"
  using assms by (intro built_classify [of d xs]) (simp_all add: NUM_PIXELS_784)

theorem dec_tree_classify_walk_witness:
  "build_subtree d_four [0, 1, 2, 3] =
     Inr (DTNode 0 (- 1) (Some (DTNode (- 1) 0 None None)) (Some (DTNode (- 1) 1 None None))) \<and>
   length (data grey) = NUM_PIXELS \<and> data grey ! 0 < 128 \<and>
   tree_of (DTNode 0 (- 1) (Some (DTNode (- 1) 0 None None)) (Some (DTNode (- 1) 1 None None)))
     = Some (Split 0 (Leaf 0) (Leaf 1)) \<and>
   dec_tree_classify
     (DTNode 0 (- 1) (Some (DTNode (- 1) 0 None None)) (Some (DTNode (- 1) 1 None None))) grey
     = Inr 1 \<and>
   dec_tree_classify
     (DTNode 0 (- 1) (Some (DTNode (- 1) 0 None None)) (Some (DTNode (- 1) 1 None None))) blank
     = Inr 0"
proof -
  have g: "length (data grey) = NUM_PIXELS" and b: "length (data blank) = NUM_PIXELS"
    by (simp_all only: grey_facts blank_length NUM_PIXELS_784)
  have t: "tree_of (DTNode 0 (- 1) (Some (DTNode (- 1) 0 None None)) (Some (DTNode (- 1) 1 None None)))
     = Some (Split 0 (Leaf 0) (Leaf 1))"
    by simp
  have lt: "data grey ! 0 < 128" by (simp add: grey_facts)
  from dec_tree_classify_walk [OF build_subtree_d_four g]
  have cg: "dec_tree_classify
     (DTNode 0 (- 1) (Some (DTNode (- 1) 0 None None)) (Some (DTNode (- 1) 1 None None))) grey
     = Inr 1"
    unfolding t by (simp add: grey_facts)
  from dec_tree_classify_walk [OF build_subtree_d_four b]
  have cb: "dec_tree_classify
     (DTNode 0 (- 1) (Some (DTNode (- 1) 0 None None)) (Some (DTNode (- 1) 1 None None))) blank
     = Inr 0"
    unfolding t by (simp add: blank_nth blank_length)
  from build_subtree_d_four g lt t cg cb show ?thesis by (intro conjI)
qed

end
